theory Spec2Isabelle
  imports Main "HOL-Library.AList" "HOL-Library.Sublist" "HOL-Library.Multiset"
begin

section \<open>Placeholder anonymizer: data model\<close>

text \<open>
  The entity mapping is a Python dict of dicts,
  \<^verbatim>\<open>{"PERSON": {"Peter": "<PERSON_0>"}, "LOCATION": {"London": "<LOCATION_0>"}}\<close>.
  Python dicts iterate in insertion order and the reverse pass iterates over them, so a
  dict is an association list in insertion order: \<open>k in d\<close> and \<open>d[k]\<close> are
  \<open>map_of d k\<close>, \<open>d[k] = v\<close> is \<open>AList.update k v d\<close> (the entry is overwritten
  where it stands, or appended when the key is new) and \<open>len(d)\<close> is \<open>length d\<close>.
\<close>

type_synonym original_map = "(string \<times> string) list"

type_synonym store = "(string \<times> original_map) list"

text \<open>
  The \<open>params\<close> dict of \<open>operate\<close> and \<open>validate\<close>, with its two keys, each of which
  may be missing; \<open>params\<close> itself may be \<open>None\<close>. The empty dict is the record with
  both keys missing.
\<close>

record params =
  param_entity_mapping :: "store option"
  param_entity_type :: "string option"

datatype error = ValueError | KeyError

section \<open>The placeholder format\<close>

text \<open>\<open>str(index)\<close> of a non-negative integer: its decimal digits.\<close>

definition digit_char :: "nat \<Rightarrow> char" where
  "digit_char d = ''0123456789'' ! d"

fun str_nat :: "nat \<Rightarrow> string" where
  "str_nat n = (if n < 10 then [digit_char n] else str_nat (n div 10) @ [digit_char (n mod 10)])"

text \<open>\<^verbatim>\<open>REPLACING_FORMAT = "<{entity_type}_{index}>"\<close>, applied with \<open>format\<close>.\<close>

definition REPLACING_FORMAT :: "string \<Rightarrow> nat \<Rightarrow> string" where
  "REPLACING_FORMAT entity_type index = ''<'' @ entity_type @ ''_'' @ str_nat index @ ''>''"

section \<open>PlaceholderAnonymizer.operate\<close>

text \<open>
  The body of \<open>operate\<close> once both parameters are read (from \<open>if entity_type not in
  entity_mapping\<close> to the final \<open>return placeholder\<close>): it returns the placeholder with
  the entity mapping as the call leaves it. In the first branch the mapping of the new type
  is created empty and then receives its first entry.
\<close>

definition allocate :: "store \<Rightarrow> string \<Rightarrow> string \<Rightarrow> string \<times> store" where
  "allocate entity_mapping entity_type text =
     (case map_of entity_mapping entity_type of
        None \<Rightarrow>
          (let entity_mapping1 = AList.update entity_type [] entity_mapping;
               index = 0;
               placeholder = REPLACING_FORMAT entity_type index
           in (placeholder,
               AList.update entity_type (AList.update text placeholder []) entity_mapping1))
      | Some original_map \<Rightarrow>
          (case map_of original_map text of
             Some existing \<Rightarrow> (existing, entity_mapping)
           | None \<Rightarrow>
               (let index = length original_map;
                    placeholder = REPLACING_FORMAT entity_type index
                in (placeholder,
                    AList.update entity_type (AList.update text placeholder original_map)
                      entity_mapping))))"

text \<open>
  \<open>operate\<close> itself: \<open>ValueError\<close> when \<open>params\<close> is \<open>None\<close>, empty or has no
  \<open>entity_mapping\<close>; \<open>KeyError\<close> from \<open>params["entity_type"]\<close> when that key is missing.
  The result is paired with \<open>params\<close> as the call leaves it, since the entity mapping it
  holds is mutated in place.
\<close>

definition operate :: "string \<Rightarrow> params option \<Rightarrow> (error + string) \<times> params option" where
  "operate text params =
     (case params of
        None \<Rightarrow> (Inl ValueError, params)
      | Some p \<Rightarrow>
          (case param_entity_mapping p of
             None \<Rightarrow> (Inl ValueError, params)
           | Some entity_mapping \<Rightarrow>
               (case param_entity_type p of
                  None \<Rightarrow> (Inl KeyError, params)
                | Some entity_type \<Rightarrow>
                    (case allocate entity_mapping entity_type text of
                       (placeholder, entity_mapping') \<Rightarrow>
                         (Inr placeholder,
                          Some (p\<lparr>param_entity_mapping := Some entity_mapping'\<rparr>))))))"

definition validate :: "params option \<Rightarrow> error + unit" where
  "validate params =
     (case params of
        None \<Rightarrow> Inl ValueError
      | Some p \<Rightarrow>
          (case param_entity_mapping p of
             None \<Rightarrow> Inl ValueError
           | Some entity_mapping \<Rightarrow>
               (case param_entity_type p of
                  None \<Rightarrow> Inl ValueError
                | Some entity_type \<Rightarrow> Inr ())))"

text \<open>A run of allocations on one store, as a pass makes them: the placeholders returned, in
  order, and the store at the end.\<close>

fun allocate_seq :: "store \<Rightarrow> (string \<times> string) list \<Rightarrow> string list \<times> store" where
  "allocate_seq entity_mapping [] = ([], entity_mapping)"
| "allocate_seq entity_mapping ((entity_type, text) # rest) =
     (case allocate entity_mapping entity_type text of
        (placeholder, entity_mapping') \<Rightarrow>
          (case allocate_seq entity_mapping' rest of
             (placeholders, entity_mapping'') \<Rightarrow> (placeholder # placeholders, entity_mapping'')))"

section \<open>deanonymize_text\<close>

text \<open>
  Python's \<open>s.replace(old, new)\<close>: the occurrences of \<open>old\<close> are found from the left and
  do not overlap; with \<open>old\<close> empty, \<open>new\<close> is inserted before every character and at
  the end.
\<close>

function replace_nonempty :: "string \<Rightarrow> string \<Rightarrow> string \<Rightarrow> string" where
  "replace_nonempty old new [] = []"
| "replace_nonempty old new (c # cs) =
     (if old \<noteq> [] \<and> prefix old (c # cs)
      then new @ replace_nonempty old new (drop (length old) (c # cs))
      else c # replace_nonempty old new cs)"
  by pat_completeness auto
termination
  by (relation "measure (\<lambda>(old, new, s). length s)") auto

definition py_replace :: "string \<Rightarrow> string \<Rightarrow> string \<Rightarrow> string" where
  "py_replace old new s =
     (if old = [] then new @ concat (map (\<lambda>c. c # new) s) else replace_nonempty old new s)"

text \<open>The reverse map: the two nested loops over \<open>entity_mapping.items()\<close> and
  \<open>original_map.items()\<close>, each step \<open>reverse_map[placeholder] = original_value\<close>.\<close>

definition build_reverse_map :: "store \<Rightarrow> (string \<times> string) list" where
  "build_reverse_map entity_mapping =
     fold (\<lambda>(entity_type, original_map) reverse_map.
             fold (\<lambda>(original_value, placeholder) reverse_map.
                     AList.update placeholder original_value reverse_map)
                  original_map reverse_map)
          entity_mapping []"

text \<open>The replacement loop over \<open>reverse_map.items()\<close>, from any list of pairs.\<close>

definition replace_all :: "(string \<times> string) list \<Rightarrow> string \<Rightarrow> string" where
  "replace_all reverse_map input_text =
     fold (\<lambda>(placeholder, original_value) deanonymized_text.
             py_replace placeholder original_value deanonymized_text)
          reverse_map input_text"

text \<open>\<open>deanonymize_text\<close>, from the entity mapping read from the file to the text that is
  printed.\<close>

definition deanonymize_text :: "string \<Rightarrow> store \<Rightarrow> string" where
  "deanonymize_text input_text entity_mapping =
     replace_all (build_reverse_map entity_mapping) input_text"

section \<open>anonymize_text\<close>

text \<open>
  Modelled from the spec: the detector (\<open>AnalyzerEngine.analyze\<close>) and the rendering step
  (\<open>AnonymizerEngine.anonymize\<close>) are external and not in the source. Following section 4.2
  of the specification, a detection is an entity type with the boundaries of its span; its
  text is that span of the raw text. The forward pass starts from the empty store, computes
  the placeholder of each detection with the allocator, in the order in which the detections
  are handed over (first span first, last span first, or any other), and replaces each span
  by its own placeholder using the span boundaries, walking the spans from the left.
\<close>

record detection =
  det_entity_type :: string
  det_start :: nat
  det_end :: nat

definition slice :: "string \<Rightarrow> nat \<Rightarrow> nat \<Rightarrow> string" where
  "slice s i j = take (j - i) (drop i s)"

text \<open>The allocations the forward pass asks for: for each detection its entity type and the
  text of its span.\<close>

definition requests_of :: "string \<Rightarrow> detection list \<Rightarrow> (string \<times> string) list" where
  "requests_of raw_text detections =
     map (\<lambda>d. (det_entity_type d, slice raw_text (det_start d) (det_end d))) detections"

text \<open>The text with each span replaced by its placeholder, the spans taken from the left.\<close>

fun render_spans :: "string \<Rightarrow> nat \<Rightarrow> (detection \<times> string) list \<Rightarrow> string" where
  "render_spans raw_text pos [] = drop pos raw_text"
| "render_spans raw_text pos ((d, placeholder) # rest) =
     slice raw_text pos (det_start d) @ placeholder @ render_spans raw_text (det_end d) rest"

definition anonymize :: "string \<Rightarrow> detection list \<Rightarrow> string \<times> store" where
  "anonymize raw_text detections =
     (case allocate_seq [] (requests_of raw_text detections) of
        (placeholders, entity_mapping) \<Rightarrow>
          (render_spans raw_text 0
             (sort_key (\<lambda>(d, placeholder). det_start d) (zip detections placeholders)),
           entity_mapping))"

text \<open>Spans listed from the left: inside the text and not overlapping.\<close>

fun valid_detections :: "nat \<Rightarrow> nat \<Rightarrow> detection list \<Rightarrow> bool" where
  "valid_detections pos n [] = (pos \<le> n)"
| "valid_detections pos n (d # ds) =
     (pos \<le> det_start d \<and> det_start d \<le> det_end d \<and> valid_detections (det_end d) n ds)"

section \<open>Vocabulary of the statements\<close>

text \<open>The entry of an original value under an entity type.\<close>

definition lookup2 :: "store \<Rightarrow> string \<Rightarrow> string \<Rightarrow> string option" where
  "lookup2 entity_mapping entity_type text =
     (case map_of entity_mapping entity_type of
        None \<Rightarrow> None
      | Some original_map \<Rightarrow> map_of original_map text)"

text \<open>All placeholders a store holds, type by type.\<close>

definition placeholders_of :: "store \<Rightarrow> string list" where
  "placeholders_of entity_mapping = concat (map (\<lambda>(entity_type, original_map). map snd original_map) entity_mapping)"

text \<open>A string without angle brackets, and a token \<open><body>\<close> whose body has none.\<close>

definition bracket_free :: "string \<Rightarrow> bool" where
  "bracket_free s = (CHR ''<'' \<notin> set s \<and> CHR ''>'' \<notin> set s)"

definition wf_token :: "string \<Rightarrow> bool" where
  "wf_token t =
     (case t of
        [] \<Rightarrow> False
      | c # cs \<Rightarrow> c = CHR ''<'' \<and> cs \<noteq> [] \<and> last cs = CHR ''>'' \<and> bracket_free (butlast cs))"

text \<open>A text cut into pieces: plain stretches without \<open><\<close>, and tokens.\<close>

datatype piece = Plain string | Token string

fun wf_piece :: "piece \<Rightarrow> bool" where
  "wf_piece (Plain s) = (CHR ''<'' \<notin> set s)"
| "wf_piece (Token t) = wf_token t"

fun render_piece :: "piece \<Rightarrow> string" where
  "render_piece (Plain s) = s"
| "render_piece (Token t) = t"

definition render :: "piece list \<Rightarrow> string" where
  "render ps = concat (map render_piece ps)"

text \<open>The original values a store holds under an entity type, in insertion order.\<close>

definition values_of :: "store \<Rightarrow> string \<Rightarrow> string list" where
  "values_of entity_mapping entity_type =
     (case map_of entity_mapping entity_type of
        None \<Rightarrow> []
      | Some original_map \<Rightarrow> map fst original_map)"

text \<open>The entries of a store with each pair turned round, type by type: what the reverse
  map is when no placeholder occurs twice.\<close>

definition flat_reverse :: "store \<Rightarrow> (string \<times> string) list" where
  "flat_reverse entity_mapping =
     concat (map (\<lambda>(entity_type, original_map).
                    map (\<lambda>(original_value, placeholder). (placeholder, original_value)) original_map)
                 entity_mapping)"

text \<open>The shape of a store that allocation builds: every type once, every original value once
  under its type, and the placeholders of a type numbered in insertion order.\<close>

definition inner_ok :: "string \<Rightarrow> original_map \<Rightarrow> bool" where
  "inner_ok entity_type original_map =
     (distinct (map fst original_map) \<and>
      map snd original_map = map (REPLACING_FORMAT entity_type) [0..<length original_map])"

definition store_ok :: "store \<Rightarrow> bool" where
  "store_ok entity_mapping =
     (distinct (map fst entity_mapping) \<and>
      list_all (\<lambda>(entity_type, original_map). inner_ok entity_type original_map) entity_mapping)"

text \<open>What the replacement loop makes of a piece: a token that is a key of the reverse map
  becomes the plain text it stands for.\<close>

fun resolve_piece :: "(string \<times> string) list \<Rightarrow> piece \<Rightarrow> piece" where
  "resolve_piece reverse_map (Plain s) = Plain s"
| "resolve_piece reverse_map (Token t) =
     (case map_of reverse_map t of None \<Rightarrow> Token t | Some original_value \<Rightarrow> Plain original_value)"

text \<open>The anonymized text cut into pieces: the stretches between the spans and the
  placeholders that stand for the spans.\<close>

fun pieces_of :: "string \<Rightarrow> nat \<Rightarrow> (detection \<times> string) list \<Rightarrow> piece list" where
  "pieces_of raw_text pos [] = [Plain (drop pos raw_text)]"
| "pieces_of raw_text pos ((d, placeholder) # rest) =
     Plain (slice raw_text pos (det_start d)) # Token placeholder #
     pieces_of raw_text (det_end d) rest"

text \<open>A piece whose token, if it is one, is well formed; its plain text is arbitrary.\<close>

fun token_ok :: "piece \<Rightarrow> bool" where
  "token_ok (Plain s) = True"
| "token_ok (Token t) = wf_token t"

section \<open>Allocation\<close>

declare str_nat.simps [simp del]

lemma allocate_new_type:
  "map_of em et = None \<Longrightarrow>
   allocate em et v = (REPLACING_FORMAT et 0, em @ [(et, [(v, REPLACING_FORMAT et 0)])])"
proof -
  assume a: "map_of em et = None"
  have u: "\<And>x. AList.update et x em = em @ [(et, x)]"
    using a by (induction em) (auto split: if_splits)
  have u2: "\<And>x y. AList.update et y (em @ [(et, x)]) = em @ [(et, y)]"
    using a by (induction em) (auto split: if_splits)
  show ?thesis using a by (simp add: allocate_def Let_def u u2)
qed

lemma allocate_known:
  "map_of em et = Some inner \<Longrightarrow> map_of inner v = Some ph \<Longrightarrow> allocate em et v = (ph, em)"
  by (simp add: allocate_def)

lemma update_absent: "map_of al k = None \<Longrightarrow> AList.update k v al = al @ [(k, v)]"
  by (induction al) (auto split: if_splits)

lemma allocate_new_value:
  "map_of em et = Some inner \<Longrightarrow> map_of inner v = None \<Longrightarrow>
   allocate em et v =
     (REPLACING_FORMAT et (length inner),
      AList.update et (inner @ [(v, REPLACING_FORMAT et (length inner))]) em)"
  by (simp add: allocate_def Let_def update_absent)

text \<open>
  C2. When the original value already has an entry under the entity type, \<open>allocate\<close>
  returns that placeholder and leaves the store as it is; and two calls in a row with the
  same entity type and original value return the same placeholder, on any store.
\<close>

theorem allocate_idempotent:
  "(lookup2 em et v = Some ph \<longrightarrow> allocate em et v = (ph, em)) \<and>
   fst (allocate (snd (allocate em et v)) et v) = fst (allocate em et v) \<and>
   snd (allocate (snd (allocate em et v)) et v) = snd (allocate em et v)"
proof -
  have known: "allocate em' et v = (ph', em')" if "lookup2 em' et v = Some ph'" for em' ph'
    using that by (auto simp: lookup2_def allocate_known split: option.splits)
  have after: "lookup2 (snd (allocate em et v)) et v = Some (fst (allocate em et v))"
  proof (cases "map_of em et")
    case None
    then show ?thesis by (simp add: allocate_new_type lookup2_def map_add_def)
  next
    case (Some inner)
    show ?thesis
    proof (cases "map_of inner v")
      case None
      with Some show ?thesis
        by (simp add: allocate_new_value lookup2_def update_conv' map_add_def)
    next
      case (Some ph')
      with \<open>map_of em et = Some inner\<close> show ?thesis
        by (simp add: allocate_known lookup2_def)
    qed
  qed
  from known [OF after] known show ?thesis by simp
qed

theorem allocate_idempotent_witness:
  "lookup2 [(''PERSON'', [(''Peter'', ''<PERSON_0>'')])] ''PERSON'' ''Peter'' = Some ''<PERSON_0>'' \<and>
   allocate [(''PERSON'', [(''Peter'', ''<PERSON_0>'')])] ''PERSON'' ''Peter''
     = (''<PERSON_0>'', [(''PERSON'', [(''Peter'', ''<PERSON_0>'')])])"
  using allocate_idempotent [of "[(''PERSON'', [(''Peter'', ''<PERSON_0>'')])]" "''PERSON''"
      "''Peter''" "''<PERSON_0>''"]
  by (simp add: lookup2_def)


text \<open>
  C9. \<open>operate\<close> returns a placeholder exactly when \<open>params\<close> holds both an entity mapping
  and an entity type, whatever the store, the entity type and the text are; \<open>validate\<close>
  accepts exactly the same calls. No other error exists: without the entity mapping
  \<open>operate\<close> raises ValueError, and with it but without the entity type KeyError.
\<close>

theorem operate_total:
  "((\<exists>placeholder. fst (operate text params) = Inr placeholder) \<longleftrightarrow>
      (\<exists>p em et. params = Some p \<and> param_entity_mapping p = Some em \<and> param_entity_type p = Some et)) \<and>
   (validate params = Inr () \<longleftrightarrow>
      (\<exists>p em et. params = Some p \<and> param_entity_mapping p = Some em \<and> param_entity_type p = Some et)) \<and>
   fst (operate text (Some \<lparr>param_entity_mapping = Some em, param_entity_type = Some et\<rparr>))
     = Inr (fst (allocate em et text))"
  by (auto simp: operate_def validate_def split: option.splits prod.splits)

theorem operate_total_witness:
  "fst (operate ''<PERSON_0>''
     (Some \<lparr>param_entity_mapping = Some [(''PERSON'', [(''Peter'', ''<PERSON_0>'')])],
            param_entity_type = Some ''PERSON''\<rparr>))
   = Inr (fst (allocate [(''PERSON'', [(''Peter'', ''<PERSON_0>'')])] ''PERSON'' ''<PERSON_0>''))"
  using operate_total [of "''<PERSON_0>''" "None" "[(''PERSON'', [(''Peter'', ''<PERSON_0>'')])]" "''PERSON''"]
  by simp

text \<open>
  C10. A call of \<open>allocate\<close> leaves the mappings of all other entity types as they were,
  keeps every entry of the mapping of its own type, and adds at most the one key it was
  called with; \<open>operate\<close> hands \<open>params\<close> back untouched whenever it raises.
\<close>

theorem allocate_frame:
  "(\<forall>et'. et' \<noteq> et \<longrightarrow> map_of (snd (allocate em et v)) et' = map_of em et') \<and>
   (\<forall>v' ph. lookup2 em et v' = Some ph \<longrightarrow> lookup2 (snd (allocate em et v)) et v' = Some ph) \<and>
   (\<forall>v'. v' \<noteq> v \<longrightarrow> lookup2 (snd (allocate em et v)) et v' = lookup2 em et v') \<and>
   (\<forall>e. fst (operate v params) = Inl e \<longrightarrow> snd (operate v params) = params)"
proof -
  have err: "\<forall>e. fst (operate v params) = Inl e \<longrightarrow> snd (operate v params) = params"
    by (auto simp: operate_def split: option.splits prod.splits)
  show ?thesis
  proof (cases "map_of em et")
    case None
    then show ?thesis using err
      by (auto simp: allocate_new_type lookup2_def map_add_def split: option.splits)
  next
    case (Some inner)
    show ?thesis
    proof (cases "map_of inner v")
      case None
      with Some show ?thesis using err
        by (auto simp: allocate_new_value lookup2_def update_conv' map_add_def
            split: option.splits)
    next
      case (Some ph')
      with \<open>map_of em et = Some inner\<close> show ?thesis using err
        by (simp add: allocate_known)
    qed
  qed
qed

theorem allocate_frame_witness:
  "lookup2 (snd (allocate [(''PERSON'', [(''Peter'', ''<PERSON_0>'')])] ''PERSON'' ''Heidi''))
       ''PERSON'' ''Peter'' = Some ''<PERSON_0>'' \<and>
   snd (operate ''Heidi'' None) = None"
proof -
  have l: "lookup2 [(''PERSON'', [(''Peter'', ''<PERSON_0>'')])] ''PERSON'' ''Peter'' = Some ''<PERSON_0>''"
    by (simp add: lookup2_def)
  have e: "fst (operate ''Heidi'' None) = Inl ValueError"
    by (simp add: operate_def)
  from allocate_frame [of "''PERSON''" "[(''PERSON'', [(''Peter'', ''<PERSON_0>'')])]" "''Heidi''" None]
    l e show ?thesis by blast
qed

section \<open>The forward pass\<close>

text \<open>
  C8. With no detection, the forward pass returns the raw text as the anonymized text,
  and the empty store.
\<close>

theorem anonymize_no_detections:
  "anonymize raw_text [] = (raw_text, [])"
  by (simp add: anonymize_def requests_of_def)

section \<open>The decimal index and the format\<close>

lemma digit_char_digit: "d < 10 \<Longrightarrow> digit_char d \<in> set ''0123456789''"
  unfolding digit_char_def by (rule nth_mem) simp

lemma digit_char_inj: "d < 10 \<Longrightarrow> e < 10 \<Longrightarrow> digit_char d = digit_char e \<Longrightarrow> d = e"
proof -
  assume a: "d < 10" "e < 10" "digit_char d = digit_char e"
  have "distinct ''0123456789''" by simp
  moreover have "length ''0123456789'' = 10" by simp
  ultimately show "d = e" using a unfolding digit_char_def
    by (metis nth_eq_iff_index_eq)
qed

lemma str_nat_digits: "set (str_nat n) \<subseteq> set ''0123456789''"
proof (induction n rule: str_nat.induct)
  case (1 n)
  show ?case
  proof (cases "n < 10")
    case True
    then show ?thesis using digit_char_digit [of n] by (subst str_nat.simps) simp
  next
    case False
    have "n mod 10 < 10" by simp
    then have "digit_char (n mod 10) \<in> set ''0123456789''" by (rule digit_char_digit)
    with False 1 show ?thesis by (subst str_nat.simps) simp
  qed
qed

lemma str_nat_nonempty: "str_nat n \<noteq> []" "[] \<noteq> str_nat n"
  by (subst str_nat.simps, simp)+

lemma str_nat_inj: "str_nat m = str_nat n \<Longrightarrow> m = n"
proof (induction m arbitrary: n rule: str_nat.induct)
  case (1 m)
  show ?case
  proof (cases "m < 10")
    case True
    show ?thesis
    proof (cases "n < 10")
      case True
      with \<open>m < 10\<close> 1(2) show ?thesis
        by (simp add: str_nat.simps [of m] str_nat.simps [of n] digit_char_inj)
    next
      case False
      with \<open>m < 10\<close> 1(2) show ?thesis
        by (simp add: str_nat.simps [of m] str_nat.simps [of n] str_nat_nonempty)
    qed
  next
    case False
    show ?thesis
    proof (cases "n < 10")
      case True
      with \<open>\<not> m < 10\<close> 1(2) show ?thesis
        by (simp add: str_nat.simps [of m] str_nat.simps [of n] str_nat_nonempty)
    next
      case False
      with \<open>\<not> m < 10\<close> 1(2)
      have e: "str_nat (m div 10) = str_nat (n div 10)" "digit_char (m mod 10) = digit_char (n mod 10)"
        by (simp_all add: str_nat.simps [of m] str_nat.simps [of n])
      from 1(1) [OF \<open>\<not> m < 10\<close> e(1)] have "m div 10 = n div 10" .
      moreover from e(2) have "m mod 10 = n mod 10" by (simp add: digit_char_inj)
      ultimately show ?thesis by (metis div_mult_mod_eq)
    qed
  qed
qed

lemma split_at_last:
  "xs @ c # ys = xs' @ c # ys' \<Longrightarrow> c \<notin> set ys \<Longrightarrow> c \<notin> set ys' \<Longrightarrow> xs = xs' \<and> ys = ys'"
  by (auto simp: append_eq_append_conv2 append_eq_Cons_conv Cons_eq_append_conv)

lemma REPLACING_FORMAT_inj:
  "REPLACING_FORMAT et i = REPLACING_FORMAT et' j \<Longrightarrow> et = et' \<and> i = j"
proof -
  assume "REPLACING_FORMAT et i = REPLACING_FORMAT et' j"
  then have e: "et @ CHR ''_'' # str_nat i = et' @ CHR ''_'' # str_nat j"
    by (simp add: REPLACING_FORMAT_def)
  have "CHR ''_'' \<notin> set (str_nat i)" "CHR ''_'' \<notin> set (str_nat j)"
    using str_nat_digits [of i] str_nat_digits [of j] by auto
  from split_at_last [OF e this] show ?thesis by (simp add: str_nat_inj)
qed

section \<open>Stores built by allocation\<close>

lemma store_ok_empty: "store_ok []"
  by (simp add: store_ok_def)

lemma map_of_None_notin: "map_of al k = None \<Longrightarrow> k \<notin> fst ` set al"
  by (simp add: map_of_eq_None_iff)

lemma list_all_update:
  "list_all P al \<Longrightarrow> P (k, x) \<Longrightarrow> list_all P (AList.update k x al)"
  by (induction al) auto

lemma store_ok_inner:
  "store_ok em \<Longrightarrow> map_of em et = Some inner \<Longrightarrow> inner_ok et inner"
proof -
  assume ok: "store_ok em" and m: "map_of em et = Some inner"
  from m have "(et, inner) \<in> set em" by (rule map_of_SomeD)
  with ok show ?thesis by (auto simp: store_ok_def list_all_iff)
qed

lemma inner_ok_snoc:
  "inner_ok et inner \<Longrightarrow> map_of inner v = None \<Longrightarrow>
   inner_ok et (inner @ [(v, REPLACING_FORMAT et (length inner))])"
  by (auto simp: inner_ok_def map_of_eq_None_iff)

lemma allocate_store_ok: "store_ok em \<Longrightarrow> store_ok (snd (allocate em et v))"
proof (cases "map_of em et")
  case None
  assume ok: "store_ok em"
  from None have "et \<notin> fst ` set em" by (rule map_of_None_notin)
  with ok None show ?thesis
    by (simp add: allocate_new_type store_ok_def inner_ok_def)
next
  case (Some inner)
  assume ok: "store_ok em"
  show ?thesis
  proof (cases "map_of inner v")
    case None
    from ok Some have "inner_ok et inner" by (rule store_ok_inner)
    then have "inner_ok et (inner @ [(v, REPLACING_FORMAT et (length inner))])"
      using None by (rule inner_ok_snoc)
    with ok Some None show ?thesis
      by (simp add: allocate_new_value store_ok_def distinct_update list_all_update)
  next
    case (Some ph)
    with \<open>map_of em et = Some inner\<close> ok show ?thesis by (simp add: allocate_known)
  qed
qed

lemma values_of_allocate:
  "set (values_of (snd (allocate em et v)) et') =
   set (values_of em et') \<union> (if et' = et then {v} else {})"
proof (cases "map_of em et")
  case None
  then show ?thesis
    by (auto simp: allocate_new_type values_of_def map_add_def split: option.splits)
next
  case (Some inner)
  show ?thesis
  proof (cases "map_of inner v")
    case None
    with Some show ?thesis
      by (auto simp: allocate_new_value values_of_def update_conv' split: option.splits)
  next
    case (Some ph)
    from map_of_SomeD [OF Some] have "(v, ph) \<in> set inner" .
    then have "v \<in> fst ` set inner" by force
    with Some \<open>map_of em et = Some inner\<close> show ?thesis
      by (auto simp: allocate_known values_of_def)
  qed
qed

lemma allocate_fresh:
  "v \<notin> set (values_of em et) \<Longrightarrow>
   fst (allocate em et v) = REPLACING_FORMAT et (length (values_of em et))"
proof (cases "map_of em et")
  case None
  then show ?thesis by (simp add: allocate_new_type values_of_def)
next
  case (Some inner)
  assume "v \<notin> set (values_of em et)"
  with Some have "map_of inner v = None"
    by (simp add: values_of_def map_of_eq_None_iff)
  with Some show ?thesis by (simp add: allocate_new_value values_of_def)
qed

lemma distinct_values_of: "store_ok em \<Longrightarrow> distinct (values_of em et)"
  by (auto simp: values_of_def inner_ok_def dest: store_ok_inner split: option.splits)

lemma values_of_empty: "values_of [] et = []"
  by (simp add: values_of_def)

lemma allocate_seq_Cons_snd:
  "snd (allocate_seq em ((et, v) # reqs)) = snd (allocate_seq (snd (allocate em et v)) reqs)"
  by (cases "allocate em et v"; cases "allocate_seq (snd (allocate em et v)) reqs") simp

lemma allocate_seq_Cons_fst:
  "fst (allocate_seq em ((et, v) # reqs)) =
   fst (allocate em et v) # fst (allocate_seq (snd (allocate em et v)) reqs)"
  by (cases "allocate em et v"; cases "allocate_seq (snd (allocate em et v)) reqs") simp

declare allocate_seq.simps(2) [simp del]

lemma allocate_seq_store_ok: "store_ok em \<Longrightarrow> store_ok (snd (allocate_seq em reqs))"
proof (induction reqs arbitrary: em)
  case Nil
  then show ?case by simp
next
  case (Cons r reqs)
  obtain et v where r: "r = (et, v)" by (cases r)
  from Cons.prems have "store_ok (snd (allocate em et v))" by (rule allocate_store_ok)
  from Cons.IH [OF this] show ?case
    by (simp add: r allocate_seq_Cons_snd)
qed

lemma values_of_allocate_seq:
  "set (values_of (snd (allocate_seq em reqs)) et) =
   set (values_of em et) \<union> {v. (et, v) \<in> set reqs}"
proof (induction reqs arbitrary: em)
  case Nil
  then show ?case by simp
next
  case (Cons r reqs)
  obtain et' v where r: "r = (et', v)" by (cases r)
  have "snd (allocate_seq em (r # reqs)) = snd (allocate_seq (snd (allocate em et' v)) reqs)"
    by (simp add: r allocate_seq_Cons_snd)
  then show ?case
    using Cons.IH [of "snd (allocate em et' v)"] values_of_allocate [of em et' v et]
    by (auto simp: r)
qed


lemma placeholders_of_Cons:
  "placeholders_of ((et, inner) # em) = map snd inner @ placeholders_of em"
  by (simp add: placeholders_of_def)

lemma inner_ok_nth:
  "inner_ok et inner \<Longrightarrow> i < length inner \<Longrightarrow> snd (inner ! i) = REPLACING_FORMAT et i"
proof -
  assume ok: "inner_ok et inner" and i: "i < length inner"
  from i have "snd (inner ! i) = map snd inner ! i" by simp
  also from ok have "\<dots> = map (REPLACING_FORMAT et) [0..<length inner] ! i"
    by (simp add: inner_ok_def)
  also from i have "\<dots> = REPLACING_FORMAT et i" by simp
  finally show ?thesis .
qed

lemma inner_ok_entry:
  "inner_ok et inner \<Longrightarrow> (v, ph) \<in> set inner \<Longrightarrow>
   \<exists>i < length inner. inner ! i = (v, ph) \<and> ph = REPLACING_FORMAT et i"
proof -
  assume ok: "inner_ok et inner" and m: "(v, ph) \<in> set inner"
  from m obtain i where i: "i < length inner" "inner ! i = (v, ph)"
    by (auto simp: in_set_conv_nth)
  from inner_ok_nth [OF ok i(1)] i(2) have "ph = REPLACING_FORMAT et i" by simp
  with i show ?thesis by blast
qed

lemma inner_ok_distinct_snd: "inner_ok et inner \<Longrightarrow> distinct (map snd inner)"
proof -
  assume "inner_ok et inner"
  then have e: "map snd inner = map (REPLACING_FORMAT et) [0..<length inner]"
    by (simp add: inner_ok_def)
  have "inj_on (REPLACING_FORMAT et) (set [0..<length inner])"
    by (rule inj_onI) (auto dest: REPLACING_FORMAT_inj)
  then have "distinct (map (REPLACING_FORMAT et) [0..<length inner])"
    by (simp add: distinct_map)
  with e show ?thesis by simp
qed

lemma placeholders_of_origin:
  "list_all (\<lambda>(et, inner). inner_ok et inner) em \<Longrightarrow> ph \<in> set (placeholders_of em) \<Longrightarrow>
   \<exists>et i. et \<in> fst ` set em \<and> ph = REPLACING_FORMAT et i"
proof (induction em)
  case Nil
  then show ?case by (simp add: placeholders_of_def)
next
  case (Cons e em)
  obtain et inner where e: "e = (et, inner)" by (cases e)
  from Cons.prems(2) consider "ph \<in> set (map snd inner)" | "ph \<in> set (placeholders_of em)"
    by (auto simp: e placeholders_of_Cons)
  then show ?case
  proof cases
    case 1
    then obtain v where "(v, ph) \<in> set inner" by auto
    moreover from Cons.prems(1) have "inner_ok et inner" by (simp add: e)
    ultimately obtain i where "ph = REPLACING_FORMAT et i"
      using inner_ok_entry by blast
    then show ?thesis by (auto simp: e)
  next
    case 2
    moreover from Cons.prems(1) have "list_all (\<lambda>(et, inner). inner_ok et inner) em" by simp
    ultimately obtain et' i where "et' \<in> fst ` set em" "ph = REPLACING_FORMAT et' i"
      using Cons.IH by blast
    then show ?thesis by auto
  qed
qed

lemma placeholders_distinct: "store_ok em \<Longrightarrow> distinct (placeholders_of em)"
proof (induction em)
  case Nil
  then show ?case by (simp add: placeholders_of_def)
next
  case (Cons e em)
  obtain et inner where e: "e = (et, inner)" by (cases e)
  from Cons.prems have ok: "inner_ok et inner" and fresh: "et \<notin> fst ` set em"
    and rest: "store_ok em" and all: "list_all (\<lambda>(et, inner). inner_ok et inner) em"
    by (auto simp: e store_ok_def)
  have "set (map snd inner) \<inter> set (placeholders_of em) = {}"
  proof (rule ccontr)
    assume "set (map snd inner) \<inter> set (placeholders_of em) \<noteq> {}"
    then obtain ph where a: "ph \<in> set (map snd inner)" and b: "ph \<in> set (placeholders_of em)"
      by blast
    from a obtain v where "(v, ph) \<in> set inner" by auto
    with ok obtain i where i: "ph = REPLACING_FORMAT et i" using inner_ok_entry by blast
    from placeholders_of_origin [OF all b] obtain et' j
      where j: "et' \<in> fst ` set em" "ph = REPLACING_FORMAT et' j" by blast
    from i j(2) have "et = et'" by (auto dest: REPLACING_FORMAT_inj)
    with j(1) fresh show False by simp
  qed
  with inner_ok_distinct_snd [OF ok] Cons.IH [OF rest] show ?case
    by (simp add: e placeholders_of_Cons)
qed

lemma fold_update_fresh:
  "distinct (map fst (acc @ xs)) \<Longrightarrow>
   fold (\<lambda>(k, v) rm. AList.update k v rm) xs acc = acc @ xs"
proof (induction xs arbitrary: acc)
  case Nil
  then show ?case by simp
next
  case (Cons x xs)
  obtain k v where x: "x = (k, v)" by (cases x)
  from Cons.prems have "k \<notin> fst ` set acc" by (auto simp: x)
  then have "map_of acc k = None" by (simp add: map_of_eq_None_iff)
  then have u: "AList.update k v acc = acc @ [(k, v)]" by (rule update_absent)
  from Cons.prems have "distinct (map fst ((acc @ [(k, v)]) @ xs))" by (simp add: x)
  from Cons.IH [OF this] show ?case by (simp add: x u)
qed

lemma fold_inner_reverse:
  "fold (\<lambda>(original_value, placeholder) rm. AList.update placeholder original_value rm) inner acc =
   fold (\<lambda>(k, v) rm. AList.update k v rm)
     (map (\<lambda>(original_value, placeholder). (placeholder, original_value)) inner) acc"
  by (induction inner arbitrary: acc) (auto split: prod.splits)

lemma build_reverse_map_fold:
  "fold (\<lambda>(entity_type, original_map) reverse_map.
             fold (\<lambda>(original_value, placeholder) reverse_map.
                     AList.update placeholder original_value reverse_map)
                  original_map reverse_map) em acc =
   fold (\<lambda>(k, v) rm. AList.update k v rm) (flat_reverse em) acc"
  (is "fold ?F em acc = fold ?H (flat_reverse em) acc")
proof (induction em arbitrary: acc)
  case Nil
  then show ?case by (simp add: flat_reverse_def)
next
  case (Cons e em)
  obtain et inner where e: "e = (et, inner)" by (cases e)
  let ?G = "\<lambda>(original_value, placeholder) rm. AList.update placeholder original_value rm"
  let ?swap = "\<lambda>(original_value :: string, placeholder :: string). (placeholder, original_value)"
  have f: "flat_reverse (e # em) = map ?swap inner @ flat_reverse em"
    by (simp add: e flat_reverse_def)
  have "fold ?F (e # em) acc = fold ?F em (fold ?G inner acc)"
    by (simp add: e)
  also have "\<dots> = fold ?H (flat_reverse em) (fold ?G inner acc)"
    by (rule Cons.IH)
  also have "fold ?G inner acc = fold ?H (map ?swap inner) acc"
    by (rule fold_inner_reverse)
  also have "fold ?H (flat_reverse em) (fold ?H (map ?swap inner) acc) =
      fold ?H (flat_reverse (e # em)) acc"
    by (simp only: f fold_append comp_apply)
  finally show ?case .
qed

lemma fst_flat_reverse: "map fst (flat_reverse em) = placeholders_of em"
  by (induction em) (auto simp: flat_reverse_def placeholders_of_def split: prod.splits)

lemma build_reverse_map_flat:
  "distinct (placeholders_of em) \<Longrightarrow> build_reverse_map em = flat_reverse em"
  using fold_update_fresh [of "[]" "flat_reverse em"]
  by (simp add: build_reverse_map_def build_reverse_map_fold fst_flat_reverse)

lemma lookup2_entry:
  "lookup2 em et v = Some ph \<Longrightarrow> \<exists>inner. map_of em et = Some inner \<and> (v, ph) \<in> set inner"
  by (auto simp: lookup2_def split: option.splits dest: map_of_SomeD)

lemma lookup2_index:
  assumes "store_ok em" "lookup2 em et v = Some ph"
  shows "\<exists>inner i. map_of em et = Some inner \<and> i < length inner \<and> inner ! i = (v, ph) \<and>
           ph = REPLACING_FORMAT et i"
proof -
  from lookup2_entry [OF assms(2)] obtain inner
    where i: "map_of em et = Some inner" "(v, ph) \<in> set inner" by blast
  from store_ok_inner [OF assms(1) i(1)] have "inner_ok et inner" .
  from inner_ok_entry [OF this i(2)] i(1) show ?thesis by blast
qed

lemma lookup2_inj:
  assumes "store_ok em" "lookup2 em et v = Some ph" "lookup2 em et' v' = Some ph"
  shows "et = et' \<and> v = v'"
proof -
  from lookup2_index [OF assms(1,2)] obtain inner i
    where a: "map_of em et = Some inner" "i < length inner" "inner ! i = (v, ph)"
      "ph = REPLACING_FORMAT et i" by blast
  from lookup2_index [OF assms(1,3)] obtain inner' j
    where b: "map_of em et' = Some inner'" "j < length inner'" "inner' ! j = (v', ph)"
      "ph = REPLACING_FORMAT et' j" by blast
  from a(4) b(4) have e: "et = et'" "i = j" by (auto dest: REPLACING_FORMAT_inj)
  with a(1) b(1) have "inner = inner'" by simp
  with a(3) b(3) e show ?thesis by simp
qed


lemma allocate_seq_append_snd:
  "snd (allocate_seq em (xs @ ys)) = snd (allocate_seq (snd (allocate_seq em xs)) ys)"
proof (induction xs arbitrary: em)
  case Nil
  then show ?case by simp
next
  case (Cons x xs)
  obtain et v where x: "x = (et, v)" by (cases x)
  show ?case using Cons.IH [of "snd (allocate em et v)"]
    by (simp add: x allocate_seq_Cons_snd)
qed

lemma allocate_seq_append_fst:
  "fst (allocate_seq em (xs @ ys)) =
   fst (allocate_seq em xs) @ fst (allocate_seq (snd (allocate_seq em xs)) ys)"
proof (induction xs arbitrary: em)
  case Nil
  then show ?case by simp
next
  case (Cons x xs)
  obtain et v where x: "x = (et, v)" by (cases x)
  show ?case using Cons.IH [of "snd (allocate em et v)"]
    by (simp add: x allocate_seq_Cons_snd allocate_seq_Cons_fst)
qed

lemma length_allocate_seq: "length (fst (allocate_seq em xs)) = length xs"
proof (induction xs arbitrary: em)
  case Nil
  then show ?case by simp
next
  case (Cons x xs)
  obtain et v where x: "x = (et, v)" by (cases x)
  show ?case using Cons.IH [of "snd (allocate em et v)"]
    by (simp add: x allocate_seq_Cons_fst)
qed

lemma allocate_seq_nth:
  "fst (allocate_seq em (pre @ (et, v) # post)) ! length pre =
   fst (allocate (snd (allocate_seq em pre)) et v)"
  by (simp add: allocate_seq_append_fst allocate_seq_Cons_fst nth_append length_allocate_seq)

lemma example_run:
  "allocate_seq [] [(''PERSON'', ''London''), (''LOCATION'', ''London'')] =
     ([''<PERSON_0>'', ''<LOCATION_0>''],
      [(''PERSON'', [(''London'', ''<PERSON_0>'')]), (''LOCATION'', [(''London'', ''<LOCATION_0>'')])])"
  by (simp add: allocate_seq.simps(2) allocate_def Let_def REPLACING_FORMAT_def str_nat.simps
      digit_char_def)

text \<open>
  C3. In a run of allocations from the empty store, a call with an original value not yet
  seen under its entity type returns \<open><entity_type_index>\<close>, the index being the number
  of distinct original values allocated before it under that type, which is the size of that
  type's mapping at that moment; the allocations made for other types do not count.
\<close>

theorem sequential_indexing:
  "(et, v) \<notin> set pre \<Longrightarrow>
   fst (allocate_seq [] (pre @ (et, v) # post)) ! length pre =
     ''<'' @ et @ ''_'' @ str_nat (card {v'. (et, v') \<in> set pre}) @ ''>'' \<and>
   length (values_of (snd (allocate_seq [] pre)) et) = card {v'. (et, v') \<in> set pre}"
proof -
  assume fresh: "(et, v) \<notin> set pre"
  let ?S = "snd (allocate_seq [] pre)"
  have s: "set (values_of ?S et) = {v'. (et, v') \<in> set pre}"
    by (simp add: values_of_allocate_seq values_of_empty)
  have "store_ok ?S" by (rule allocate_seq_store_ok) (rule store_ok_empty)
  then have "distinct (values_of ?S et)" by (rule distinct_values_of)
  then have l: "length (values_of ?S et) = card {v'. (et, v') \<in> set pre}"
    using s by (metis distinct_card)
  from fresh s have "v \<notin> set (values_of ?S et)" by simp
  then have "fst (allocate ?S et v) = REPLACING_FORMAT et (card {v'. (et, v') \<in> set pre})"
    using l by (simp add: allocate_fresh)
  then show ?thesis using l by (simp add: allocate_seq_nth REPLACING_FORMAT_def)
qed

theorem sequential_indexing_witness:
  "(''PERSON'', ''Heidi'') \<notin> set [(''PERSON'', ''Peter''), (''LOCATION'', ''London'')] \<and>
   fst (allocate_seq []
     ([(''PERSON'', ''Peter''), (''LOCATION'', ''London'')] @ (''PERSON'', ''Heidi'') # [])) ! 2
     = ''<PERSON_1>''"
proof -
  have c: "card {v'. (''PERSON'', v') \<in> set [(''PERSON'', ''Peter''), (''LOCATION'', ''London'')]} = 1"
    by simp
  have f: "(''PERSON'', ''Heidi'') \<notin> set [(''PERSON'', ''Peter''), (''LOCATION'', ''London'')]"
    by simp
  from sequential_indexing [OF f, of "[]"] show ?thesis
    unfolding c by (simp add: str_nat.simps digit_char_def numeral_2_eq_2)
qed

text \<open>
  C4. In a store built by allocations from the empty store no placeholder occurs twice: two
  entries holding the same placeholder are the same entry, under the same entity type. The
  reverse map built from such a store is therefore the list of all its entries turned
  round, none overwritten.
\<close>

theorem placeholder_uniqueness:
  "distinct (placeholders_of (snd (allocate_seq [] reqs))) \<and>
   (\<forall>et v et' v' ph.
      lookup2 (snd (allocate_seq [] reqs)) et v = Some ph \<and>
      lookup2 (snd (allocate_seq [] reqs)) et' v' = Some ph \<longrightarrow> et = et' \<and> v = v') \<and>
   build_reverse_map (snd (allocate_seq [] reqs)) = flat_reverse (snd (allocate_seq [] reqs))"
proof -
  have ok: "store_ok (snd (allocate_seq [] reqs))"
    by (rule allocate_seq_store_ok) (rule store_ok_empty)
  from placeholders_distinct [OF ok] build_reverse_map_flat lookup2_inj [OF ok]
  show ?thesis by blast
qed

theorem placeholder_uniqueness_witness:
  "lookup2 (snd (allocate_seq [] [(''PERSON'', ''London''), (''LOCATION'', ''London'')]))
     ''PERSON'' ''London'' = Some ''<PERSON_0>'' \<and>
   build_reverse_map (snd (allocate_seq [] [(''PERSON'', ''London''), (''LOCATION'', ''London'')]))
     = [(''<PERSON_0>'', ''London''), (''<LOCATION_0>'', ''London'')]"
  using placeholder_uniqueness [of "[(''PERSON'', ''London''), (''LOCATION'', ''London'')]"]
  by (simp add: example_run lookup2_def flat_reverse_def)

section \<open>Replacing a token\<close>

declare replace_nonempty.simps [simp del]

lemma wf_token_shape:
  "wf_token t \<longleftrightarrow> (\<exists>b. t = CHR ''<'' # b @ [CHR ''>''] \<and> bracket_free b)"
proof
  assume "wf_token t"
  then obtain cs where t: "t = CHR ''<'' # cs" "cs \<noteq> []" "last cs = CHR ''>''"
    "bracket_free (butlast cs)"
    by (auto simp: wf_token_def split: list.splits)
  from t(2,3) have "cs = butlast cs @ [CHR ''>'']" by (metis append_butlast_last_id)
  with t show "\<exists>b. t = CHR ''<'' # b @ [CHR ''>''] \<and> bracket_free b" by metis
next
  assume "\<exists>b. t = CHR ''<'' # b @ [CHR ''>''] \<and> bracket_free b"
  then show "wf_token t" by (auto simp: wf_token_def)
qed

lemma py_replace_token: "wf_token p \<Longrightarrow> py_replace p v s = replace_nonempty p v s"
  by (auto simp: py_replace_def wf_token_def)

lemma replace_skip_plain:
  "p = CHR ''<'' # b \<Longrightarrow> CHR ''<'' \<notin> set s \<Longrightarrow>
   replace_nonempty p v (s @ rest) = s @ replace_nonempty p v rest"
proof (induction s)
  case Nil
  then show ?case by simp
next
  case (Cons c s)
  then have "\<not> prefix p (c # s @ rest)" by auto
  with Cons show ?case by (simp add: replace_nonempty.simps(2))
qed

lemma replace_own:
  "p \<noteq> [] \<Longrightarrow> replace_nonempty p v (p @ rest) = v @ replace_nonempty p v rest"
proof -
  assume ne: "p \<noteq> []"
  then obtain c cs where "p @ rest = c # cs" by (cases p) auto
  then show ?thesis
    using ne replace_nonempty.simps(2) [of p v c cs] by (metis append_eq_conv_conj prefixI)
qed

lemma split_at_first:
  "xs @ c # ys = xs' @ c # ys' \<Longrightarrow> c \<notin> set xs \<Longrightarrow> c \<notin> set xs' \<Longrightarrow> xs = xs' \<and> ys = ys'"
  by (auto simp: append_eq_append_conv2 append_eq_Cons_conv Cons_eq_append_conv)

lemma token_prefix_eq:
  assumes "wf_token p" "wf_token t" "prefix p (t @ rest)"
  shows "p = t"
proof -
  from assms(1) obtain b where p: "p = CHR ''<'' # b @ [CHR ''>'']" "bracket_free b"
    by (auto simp: wf_token_shape)
  from assms(2) obtain b' where t: "t = CHR ''<'' # b' @ [CHR ''>'']" "bracket_free b'"
    by (auto simp: wf_token_shape)
  from assms(3) obtain zs where "t @ rest = p @ zs" by (auto simp: prefix_def)
  then have "b' @ CHR ''>'' # rest = b @ CHR ''>'' # zs" by (simp add: p t)
  from split_at_first [OF this] p(2) t(2) have "b' = b" by (simp add: bracket_free_def)
  then show ?thesis by (simp add: p t)
qed

lemma replace_skip_token:
  assumes "wf_token p" "wf_token t" "t \<noteq> p"
  shows "replace_nonempty p v (t @ rest) = t @ replace_nonempty p v rest"
proof -
  from assms(1) obtain b where p: "p = CHR ''<'' # b @ [CHR ''>'']" "bracket_free b"
    by (auto simp: wf_token_shape)
  from assms(2) obtain b' where t: "t = CHR ''<'' # b' @ [CHR ''>'']" "bracket_free b'"
    by (auto simp: wf_token_shape)
  from assms have "\<not> prefix p (t @ rest)" using token_prefix_eq by blast
  then have "replace_nonempty p v (t @ rest) =
      CHR ''<'' # replace_nonempty p v ((b' @ [CHR ''>'']) @ rest)"
    by (simp add: t replace_nonempty.simps(2))
  also have "replace_nonempty p v ((b' @ [CHR ''>'']) @ rest) =
      (b' @ [CHR ''>'']) @ replace_nonempty p v rest"
    by (rule replace_skip_plain [of p "b @ [CHR ''>'']"]) (use p t in \<open>auto simp: bracket_free_def\<close>)
  finally show ?thesis by (simp add: t)
qed

lemma token_prefix_inside:
  assumes "wf_token p" "wf_token t" "prefix p (pre @ t @ post)" "pre \<noteq> []"
  shows "prefix p pre"
proof -
  from assms(1) obtain b where p: "p = CHR ''<'' # b @ [CHR ''>'']" "bracket_free b"
    by (auto simp: wf_token_shape)
  from assms(2) obtain b' where t: "t = CHR ''<'' # b' @ [CHR ''>'']" "bracket_free b'"
    by (auto simp: wf_token_shape)
  from assms(3) consider "prefix p pre" | us where "p = pre @ us" "prefix us (t @ post)"
    by (auto simp: prefix_append)
  then show ?thesis
  proof cases
    case 1
    then show ?thesis .
  next
    case 2
    show ?thesis
    proof (cases us)
      case Nil
      with 2 show ?thesis by simp
    next
      case (Cons u us')
      with 2(2) have "u = CHR ''<''" by (simp add: t)
      with 2(1) Cons assms(4) have "CHR ''<'' \<in> set (tl p)" by (cases pre) auto
      with p show ?thesis by (simp add: bracket_free_def)
    qed
  qed
qed

lemma replace_barrier:
  "wf_token p \<Longrightarrow> wf_token t \<Longrightarrow> t \<noteq> p \<Longrightarrow>
   replace_nonempty p v (pre @ t @ post) =
     replace_nonempty p v pre @ t @ replace_nonempty p v post"
proof (induction p v pre rule: replace_nonempty.induct)
  case (1 old new)
  then show ?case
    by (simp add: replace_nonempty.simps(1) replace_skip_token)
next
  case (2 old new c cs)
  from "2.prems"(1) have ne: "old \<noteq> []" by (auto simp: wf_token_def)
  show ?case
  proof (cases "prefix old ((c # cs) @ t @ post)")
    case True
    with "2.prems" have inside: "prefix old (c # cs)"
      using token_prefix_inside [of old t "c # cs" post] by simp
    then have len: "length old \<le> length (c # cs)" by (rule prefix_length_le)
    from inside ne have IH: "replace_nonempty old new (drop (length old) (c # cs) @ t @ post) =
        replace_nonempty old new (drop (length old) (c # cs)) @ t @ replace_nonempty old new post"
      using "2.IH"(1) "2.prems" by simp
    from len have z: "length old - length (c # cs) = 0" by simp
    have d: "drop (length old) ((c # cs) @ t @ post) = drop (length old) (c # cs) @ t @ post"
      using drop_append [of "length old" "c # cs" "t @ post"] z by (simp only: drop_0)
    have "replace_nonempty old new ((c # cs) @ t @ post) =
        new @ replace_nonempty old new (drop (length old) ((c # cs) @ t @ post))"
      using True ne replace_nonempty.simps(2) [of old new c "cs @ t @ post"] by simp
    also have "\<dots> = new @ replace_nonempty old new (drop (length old) (c # cs)) @ t @
        replace_nonempty old new post"
      by (simp only: d IH)
    finally have whole: "replace_nonempty old new ((c # cs) @ t @ post) =
        new @ replace_nonempty old new (drop (length old) (c # cs)) @ t @
        replace_nonempty old new post" .
    have "replace_nonempty old new (c # cs) =
        new @ replace_nonempty old new (drop (length old) (c # cs))"
      using inside ne by (simp add: replace_nonempty.simps(2))
    with whole show ?thesis by simp
  next
    case False
    then have no: "\<not> prefix old (c # cs)" by (metis prefix_prefix)
    from no have IH: "replace_nonempty old new (cs @ t @ post) =
        replace_nonempty old new cs @ t @ replace_nonempty old new post"
      using "2.IH"(2) "2.prems" by simp
    from False have "replace_nonempty old new ((c # cs) @ t @ post) =
        c # replace_nonempty old new (cs @ t @ post)"
      using replace_nonempty.simps(2) [of old new c "cs @ t @ post"] by simp
    with IH no show ?thesis by (simp add: replace_nonempty.simps(2))
  qed
qed

lemma replace_missing:
  "\<not> sublist p s \<Longrightarrow> py_replace p v s = s"
proof -
  assume no: "\<not> sublist p s"
  then have ne: "p \<noteq> []" by auto
  from no have "replace_nonempty p v s = s"
  proof (induction s)
    case Nil
    then show ?case by (simp add: replace_nonempty.simps(1))
  next
    case (Cons c s)
    then have "\<not> prefix p (c # s)" "\<not> sublist p s" by (auto simp: sublist_Cons_right)
    with Cons.IH show ?case by (simp add: replace_nonempty.simps(2))
  qed
  with ne show ?thesis by (simp add: py_replace_def)
qed

section \<open>The replacement loop\<close>

lemma replace_all_Nil: "replace_all [] s = s"
  by (simp add: replace_all_def)

lemma replace_all_Cons: "replace_all ((p, v) # rm) s = replace_all rm (py_replace p v s)"
  by (simp add: replace_all_def)

lemma replace_all_append: "replace_all (xs @ ys) s = replace_all ys (replace_all xs s)"
  by (simp add: replace_all_def)

lemma replace_all_empty_text:
  "list_all wf_token (map fst rm) \<Longrightarrow> replace_all rm [] = []"
proof (induction rm)
  case Nil
  then show ?case by (simp add: replace_all_Nil)
next
  case (Cons e rm)
  obtain p v where e: "e = (p, v)" by (cases e)
  from Cons show ?case
    by (simp add: e replace_all_Cons py_replace_token replace_nonempty.simps(1))
qed

lemma replace_all_plain:
  "list_all wf_token (map fst rm) \<Longrightarrow> CHR ''<'' \<notin> set s \<Longrightarrow>
   replace_all rm (s @ rest) = s @ replace_all rm rest"
proof (induction rm arbitrary: rest)
  case Nil
  then show ?case by (simp add: replace_all_Nil)
next
  case (Cons e rm)
  obtain p v where e: "e = (p, v)" by (cases e)
  from Cons.prems have wf: "wf_token p" and rest: "list_all wf_token (map fst rm)"
    by (simp_all add: e)
  from wf obtain b where "p = CHR ''<'' # b" by (auto simp: wf_token_shape)
  from replace_skip_plain [OF this Cons.prems(2)]
  have "py_replace p v (s @ rest) = s @ py_replace p v rest"
    by (simp add: py_replace_token [OF wf])
  then show ?case
    using Cons.IH [OF rest Cons.prems(2)] by (simp add: e replace_all_Cons)
qed

lemma replace_all_unknown:
  "list_all wf_token (map fst rm) \<Longrightarrow> wf_token t \<Longrightarrow> t \<notin> fst ` set rm \<Longrightarrow>
   replace_all rm (pre @ t @ post) = replace_all rm pre @ t @ replace_all rm post"
proof (induction rm arbitrary: pre post)
  case Nil
  then show ?case by (simp add: replace_all_Nil)
next
  case (Cons e rm)
  obtain p v where e: "e = (p, v)" by (cases e)
  from Cons.prems have wf: "wf_token p" and rest: "list_all wf_token (map fst rm)"
    and ne: "t \<noteq> p" and notin: "t \<notin> fst ` set rm"
    by (auto simp: e)
  from replace_barrier [OF wf Cons.prems(2) ne]
  have "py_replace p v (pre @ t @ post) = py_replace p v pre @ t @ py_replace p v post"
    by (simp add: py_replace_token [OF wf])
  then show ?case
    using Cons.IH [OF rest Cons.prems(2) notin] by (simp add: e replace_all_Cons)
qed

lemma replace_all_known:
  "list_all wf_token (map fst rm) \<Longrightarrow> list_all (\<lambda>v. CHR ''<'' \<notin> set v) (map snd rm) \<Longrightarrow>
   map_of rm t = Some v \<Longrightarrow>
   replace_all rm (t @ rest) = v @ replace_all rm rest"
proof (induction rm arbitrary: rest)
  case Nil
  then show ?case by simp
next
  case (Cons e rm)
  obtain p w where e: "e = (p, w)" by (cases e)
  from Cons.prems have wf: "wf_token p" and keys: "list_all wf_token (map fst rm)"
    and w: "CHR ''<'' \<notin> set w" and vals: "list_all (\<lambda>v. CHR ''<'' \<notin> set v) (map snd rm)"
    by (simp_all add: e)
  show ?case
  proof (cases "t = p")
    case True
    with Cons.prems(3) have "w = v" by (simp add: e)
    from wf have "p \<noteq> []" by (auto simp: wf_token_def)
    from replace_own [OF this] have "py_replace p v (t @ rest) = v @ py_replace p v rest"
      by (simp add: True py_replace_token [OF wf])
    moreover from w \<open>w = v\<close> have "CHR ''<'' \<notin> set v" by simp
    ultimately show ?thesis
      using replace_all_plain [OF keys] by (simp add: e replace_all_Cons \<open>w = v\<close>)
  next
    case False
    with Cons.prems(3) have m: "map_of rm t = Some v" by (simp add: e)
    then have "t \<in> fst ` set rm" by (meson domI domIff map_of_eq_None_iff)
    with keys have wt: "wf_token t" by (auto simp: list_all_iff)
    from replace_skip_token [OF wf wt False]
    have "py_replace p w (t @ rest) = t @ py_replace p w rest"
      by (simp add: py_replace_token [OF wf])
    then show ?thesis
      using Cons.IH [OF keys vals m] by (simp add: e replace_all_Cons)
  qed
qed

lemma render_Cons: "render (x # ps) = render_piece x @ render ps"
  by (simp add: render_def)

lemma replace_all_render:
  assumes keys: "list_all wf_token (map fst rm)"
    and vals: "list_all (\<lambda>v. CHR ''<'' \<notin> set v) (map snd rm)"
  shows "list_all wf_piece ps \<Longrightarrow>
         replace_all rm (render ps) = render (map (resolve_piece rm) ps)"
proof (induction ps)
  case Nil
  then show ?case by (simp add: render_def replace_all_empty_text [OF keys])
next
  case (Cons x ps)
  then have IH: "replace_all rm (render ps) = render (map (resolve_piece rm) ps)" by simp
  show ?case
  proof (cases x)
    case (Plain s)
    with Cons.prems have "CHR ''<'' \<notin> set s" by simp
    from replace_all_plain [OF keys this] show ?thesis by (simp add: render_Cons IH Plain)
  next
    case (Token t)
    with Cons.prems have wt: "wf_token t" by simp
    show ?thesis
    proof (cases "map_of rm t")
      case None
      then have "t \<notin> fst ` set rm" by (simp add: map_of_eq_None_iff)
      from replace_all_unknown [OF keys wt this, of "[]" "render ps"]
      show ?thesis
        by (simp add: render_Cons IH Token None replace_all_empty_text [OF keys])
    next
      case (Some v)
      from replace_all_known [OF keys vals Some] show ?thesis
        by (simp add: render_Cons IH Token Some)
    qed
  qed
qed

lemma replace_all_missing:
  "list_all (\<lambda>p. \<not> sublist p s) (map fst rm) \<Longrightarrow> replace_all rm s = s"
proof (induction rm)
  case Nil
  then show ?case by (simp add: replace_all_Nil)
next
  case (Cons e rm)
  obtain p v where e: "e = (p, v)" by (cases e)
  from Cons show ?case by (simp add: e replace_all_Cons replace_missing)
qed

lemma map_of_permuted:
  assumes "distinct (map fst rm)" "mset rm' = mset rm"
  shows "map_of rm' = map_of rm"
proof -
  from assms(2) have "mset (map fst rm') = mset (map fst rm)" by (metis mset_map)
  with assms(1) have "distinct (map fst rm')" by (metis mset_eq_imp_distinct_iff)
  moreover from assms(2) have "set rm' = set rm" by (rule mset_eq_setD)
  ultimately show ?thesis using assms(1) by (simp add: map_of_inject_set)
qed

lemma resolve_piece_cong: "map_of rm' = map_of rm \<Longrightarrow> resolve_piece rm' x = resolve_piece rm x"
  by (cases x) simp_all

lemma fold_update_keys:
  "fst ` set (fold (\<lambda>(k, v) rm. AList.update k v rm) xs acc) = fst ` set acc \<union> fst ` set xs"
  by (induction xs arbitrary: acc) (auto simp: dom_update split: prod.splits)

lemma fold_update_distinct:
  "distinct (map fst acc) \<Longrightarrow> distinct (map fst (fold (\<lambda>(k, v) rm. AList.update k v rm) xs acc))"
  by (induction xs arbitrary: acc) (auto simp: distinct_update split: prod.splits)

lemma build_reverse_map_alt:
  "build_reverse_map em = fold (\<lambda>(k, v) rm. AList.update k v rm) (flat_reverse em) []"
  by (simp add: build_reverse_map_def build_reverse_map_fold)

lemma keys_build_reverse_map: "fst ` set (build_reverse_map em) = set (placeholders_of em)"
  by (simp add: build_reverse_map_alt fold_update_keys fst_flat_reverse [symmetric])

lemma distinct_build_reverse_map: "distinct (map fst (build_reverse_map em))"
  by (simp add: build_reverse_map_alt fold_update_distinct)

section \<open>The reverse pass\<close>

lemma wf_token_format: "bracket_free et \<Longrightarrow> wf_token (REPLACING_FORMAT et i)"
proof -
  assume et: "bracket_free et"
  have d: "CHR ''<'' \<notin> set (str_nat i)" "CHR ''>'' \<notin> set (str_nat i)"
    using str_nat_digits [of i] by auto
  have "REPLACING_FORMAT et i = CHR ''<'' # (et @ CHR ''_'' # str_nat i) @ [CHR ''>'']"
    by (simp add: REPLACING_FORMAT_def)
  moreover from et d have "bracket_free (et @ CHR ''_'' # str_nat i)"
    by (simp add: bracket_free_def)
  ultimately show ?thesis unfolding wf_token_shape by blast
qed

lemma types_allocate: "fst ` set (snd (allocate em et v)) = insert et (fst ` set em)"
proof (cases "map_of em et")
  case None
  then show ?thesis by (simp add: allocate_new_type)
next
  case (Some inner)
  then have "et \<in> fst ` set em" by (meson domI domIff map_of_eq_None_iff)
  then show ?thesis using Some
    by (cases "map_of inner v") (auto simp: allocate_new_value allocate_known dom_update)
qed

lemma types_allocate_seq:
  "fst ` set (snd (allocate_seq em reqs)) = fst ` set em \<union> fst ` set reqs"
proof (induction reqs arbitrary: em)
  case Nil
  then show ?case by simp
next
  case (Cons r reqs)
  obtain et v where r: "r = (et, v)" by (cases r)
  show ?case using Cons.IH [of "snd (allocate em et v)"]
    by (simp add: r allocate_seq_Cons_snd types_allocate)
qed

lemma hygienic_keys:
  assumes "list_all (\<lambda>(et, v). bracket_free et \<and> CHR ''<'' \<notin> set v) reqs"
  shows "list_all wf_token (map fst (build_reverse_map (snd (allocate_seq [] reqs))))"
proof -
  let ?S = "snd (allocate_seq [] reqs)"
  have ok: "store_ok ?S" by (rule allocate_seq_store_ok) (rule store_ok_empty)
  have "wf_token ph" if "ph \<in> set (placeholders_of ?S)" for ph
  proof -
    from ok have "list_all (\<lambda>(et, inner). inner_ok et inner) ?S" by (simp add: store_ok_def)
    from placeholders_of_origin [OF this that] obtain et i
      where e: "et \<in> fst ` set ?S" "ph = REPLACING_FORMAT et i" by blast
    from e(1) have "et \<in> fst ` set reqs" by (simp add: types_allocate_seq)
    with assms have "bracket_free et" by (auto simp: list_all_iff)
    with e(2) show ?thesis by (simp add: wf_token_format)
  qed
  then show ?thesis
    using keys_build_reverse_map [of ?S] by (auto simp: list_all_iff)
qed

lemma flat_reverse_values:
  "(ph, v) \<in> set (flat_reverse em) \<Longrightarrow> \<exists>et inner. (et, inner) \<in> set em \<and> (v, ph) \<in> set inner"
  by (auto simp: flat_reverse_def)

lemma flat_reverse_entry:
  "(et, inner) \<in> set em \<Longrightarrow> (v, ph) \<in> set inner \<Longrightarrow> (ph, v) \<in> set (flat_reverse em)"
  by (force simp: flat_reverse_def)

lemma hygienic_values:
  assumes "list_all (\<lambda>(et, v). bracket_free et \<and> CHR ''<'' \<notin> set v) reqs"
  shows "list_all (\<lambda>v. CHR ''<'' \<notin> set v) (map snd (build_reverse_map (snd (allocate_seq [] reqs))))"
proof -
  let ?S = "snd (allocate_seq [] reqs)"
  have ok: "store_ok ?S" by (rule allocate_seq_store_ok) (rule store_ok_empty)
  then have flat: "build_reverse_map ?S = flat_reverse ?S"
    by (simp add: build_reverse_map_flat placeholders_distinct)
  have "CHR ''<'' \<notin> set v" if "(ph, v) \<in> set (flat_reverse ?S)" for ph v
  proof -
    from flat_reverse_values [OF that] obtain et inner
      where e: "(et, inner) \<in> set ?S" "(v, ph) \<in> set inner" by blast
    from ok have "distinct (map fst ?S)" by (simp add: store_ok_def)
    with e(1) have "map_of ?S et = Some inner" by simp
    with e(2) have "v \<in> set (values_of ?S et)" by (force simp: values_of_def)
    then have "(et, v) \<in> set reqs" by (simp add: values_of_allocate_seq values_of_empty)
    with assms show ?thesis by (auto simp: list_all_iff)
  qed
  then show ?thesis unfolding flat by (auto simp: list_all_iff)
qed

text \<open>
  C5 (amended). For a store built by allocations whose entity types contain neither \<open><\<close>
  nor \<open>>\<close> and whose original values contain no \<open><\<close>, and for a text made of plain
  stretches without \<open><\<close> and of tokens \<open><body>\<close> with bracket-free bodies, applying the
  pairs of the reverse map in any order gives the output of \<open>deanonymize_text\<close>.
\<close>

theorem substitution_order_independent:
  assumes "list_all (\<lambda>(et, v). bracket_free et \<and> CHR ''<'' \<notin> set v) reqs"
    and "list_all wf_piece ps"
    and "mset rm' = mset (build_reverse_map (snd (allocate_seq [] reqs)))"
  shows "replace_all rm' (render ps) = deanonymize_text (render ps) (snd (allocate_seq [] reqs))"
proof -
  let ?rm = "build_reverse_map (snd (allocate_seq [] reqs))"
  have keys: "list_all wf_token (map fst ?rm)" using assms(1) by (rule hygienic_keys)
  have vals: "list_all (\<lambda>v. CHR ''<'' \<notin> set v) (map snd ?rm)"
    using assms(1) by (rule hygienic_values)
  from assms(3) have s: "set rm' = set ?rm" by (rule mset_eq_setD)
  from keys s have keys': "list_all wf_token (map fst rm')" by (simp add: list_all_iff)
  from vals s have vals': "list_all (\<lambda>v. CHR ''<'' \<notin> set v) (map snd rm')"
    by (simp add: list_all_iff)
  have mo: "map_of rm' = map_of ?rm"
    using distinct_build_reverse_map assms(3) by (rule map_of_permuted)
  have "\<And>x. resolve_piece rm' x = resolve_piece ?rm x"
    by (rule resolve_piece_cong [OF mo])
  then have "resolve_piece rm' = resolve_piece ?rm" by (rule ext)
  with replace_all_render [OF keys vals assms(2)] replace_all_render [OF keys' vals' assms(2)]
  have "replace_all rm' (render ps) = replace_all ?rm (render ps)" by simp
  then show ?thesis by (simp add: deanonymize_text_def)
qed

theorem substitution_order_independent_witness:
  "replace_all [(''<LOCATION_0>'', ''London''), (''<PERSON_0>'', ''Peter'')]
     ''<PERSON_0> lives in <LOCATION_0>.'' =
   deanonymize_text ''<PERSON_0> lives in <LOCATION_0>.''
     (snd (allocate_seq [] [(''PERSON'', ''Peter''), (''LOCATION'', ''London'')])) \<and>
   deanonymize_text ''<PERSON_0> lives in <LOCATION_0>.''
     (snd (allocate_seq [] [(''PERSON'', ''Peter''), (''LOCATION'', ''London'')])) =
   ''Peter lives in London.''"
proof -
  let ?reqs = "[(''PERSON'', ''Peter''), (''LOCATION'', ''London'')]"
  let ?ps = "[Token ''<PERSON_0>'', Plain '' lives in '', Token ''<LOCATION_0>'', Plain ''.'']"
  have run: "snd (allocate_seq [] ?reqs) =
      [(''PERSON'', [(''Peter'', ''<PERSON_0>'')]), (''LOCATION'', [(''London'', ''<LOCATION_0>'')])]"
    by (simp add: allocate_seq.simps(2) allocate_def Let_def REPLACING_FORMAT_def str_nat.simps
        digit_char_def)
  have rm: "build_reverse_map (snd (allocate_seq [] ?reqs)) =
      [(''<PERSON_0>'', ''Peter''), (''<LOCATION_0>'', ''London'')]"
    by (simp add: run build_reverse_map_def)
  have h1: "list_all (\<lambda>(et, v). bracket_free et \<and> CHR ''<'' \<notin> set v) ?reqs"
    by (simp add: bracket_free_def)
  have h2: "list_all wf_piece ?ps"
    by (simp add: wf_token_def bracket_free_def)
  have h3: "mset [(''<LOCATION_0>'', ''London''), (''<PERSON_0>'', ''Peter'')] =
      mset (build_reverse_map (snd (allocate_seq [] ?reqs)))"
    by (simp add: rm)
  have r: "render ?ps = ''<PERSON_0> lives in <LOCATION_0>.''"
    by (simp add: render_def)
  have out: "replace_all [(''<LOCATION_0>'', ''London''), (''<PERSON_0>'', ''Peter'')]
      ''<PERSON_0> lives in <LOCATION_0>.'' = ''Peter lives in London.''"
    by (simp add: replace_all_def py_replace_def replace_nonempty.simps)
  from substitution_order_independent [OF h1 h2 h3] out show ?thesis
    unfolding r by simp
qed

text \<open>
  C5 as stated fails: the placeholders \<open><A_0>\<close> and \<open><B_0>\<close> are not substrings of one
  another, yet on the text \<open><B_<A_0>>\<close> the two orders of replacement differ.
\<close>

theorem substitution_order_counterexample:
  "build_reverse_map (snd (allocate_seq [] [(''A'', ''0''), (''B'', ''y'')])) =
     [(''<A_0>'', ''0''), (''<B_0>'', ''y'')] \<and>
   deanonymize_text ''<B_<A_0>>'' (snd (allocate_seq [] [(''A'', ''0''), (''B'', ''y'')])) = ''y'' \<and>
   replace_all [(''<B_0>'', ''y''), (''<A_0>'', ''0'')] ''<B_<A_0>>'' = ''<B_0>''"
  by (simp add: allocate_seq.simps(2) allocate_def Let_def REPLACING_FORMAT_def str_nat.simps
      digit_char_def build_reverse_map_def deanonymize_text_def replace_all_def py_replace_def
      replace_nonempty.simps)

text \<open>
  C6 (amended). When every placeholder of the store is a token \<open><body>\<close> with a bracket-free
  body, a token \<open><TYPE_index>\<close> with a bracket-free type that is not a placeholder of the
  store comes out of \<open>deanonymize_text\<close> unchanged, between the outputs for the text before
  it and the text after it.
\<close>

theorem unknown_placeholder_stable:
  assumes "list_all wf_token (placeholders_of em)" "bracket_free ty"
    and "REPLACING_FORMAT ty idx \<notin> set (placeholders_of em)"
  shows "deanonymize_text (pre @ REPLACING_FORMAT ty idx @ post) em =
         deanonymize_text pre em @ REPLACING_FORMAT ty idx @ deanonymize_text post em"
proof -
  from assms(1) have keys: "list_all wf_token (map fst (build_reverse_map em))"
    using keys_build_reverse_map [of em] by (auto simp: list_all_iff)
  from assms(3) have "REPLACING_FORMAT ty idx \<notin> fst ` set (build_reverse_map em)"
    by (simp add: keys_build_reverse_map)
  from replace_all_unknown [OF keys wf_token_format [OF assms(2)] this]
  show ?thesis by (simp add: deanonymize_text_def)
qed

theorem unknown_placeholder_stable_witness:
  "deanonymize_text (''<PERSON_0> met '' @ ''<PERSON_5>'' @ ''.'')
     [(''PERSON'', [(''Peter'', ''<PERSON_0>'')])] =
   ''Peter met <PERSON_5>.''"
proof -
  let ?em = "[(''PERSON'', [(''Peter'', ''<PERSON_0>'')])]"
  have f: "REPLACING_FORMAT ''PERSON'' 5 = ''<PERSON_5>''"
    by (simp add: REPLACING_FORMAT_def str_nat.simps digit_char_def)
  have h1: "list_all wf_token (placeholders_of ?em)"
    by (simp add: placeholders_of_def wf_token_def bracket_free_def)
  have h2: "bracket_free ''PERSON''"
    by (simp add: bracket_free_def)
  have h3: "REPLACING_FORMAT ''PERSON'' 5 \<notin> set (placeholders_of ?em)"
    by (simp add: f placeholders_of_def)
  have a: "deanonymize_text ''<PERSON_0> met '' ?em = ''Peter met ''"
    by (simp add: deanonymize_text_def build_reverse_map_def replace_all_def py_replace_def
        replace_nonempty.simps)
  have b: "deanonymize_text ''.'' ?em = ''.''"
    by (simp add: deanonymize_text_def build_reverse_map_def replace_all_def py_replace_def
        replace_nonempty.simps)
  from unknown_placeholder_stable [OF h1 h2 h3, of "''<PERSON_0> met ''" "''.''"]
  show ?thesis unfolding f a b by simp
qed

text \<open>
  C6 as stated fails: the text \<open><<A_0>_99>\<close> is the format applied to the type \<open><A_0>\<close>
  and the index 99 and is not a key of the reverse map, but the key \<open><A_0>\<close> inside it
  is replaced; and a store read from a file may hold a key such as \<open>PERSON\<close>.
\<close>

theorem unknown_placeholder_counterexample:
  "REPLACING_FORMAT ''<A_0>'' 99 = ''<<A_0>_99>'' \<and>
   snd (allocate [] ''A'' ''v'') = [(''A'', [(''v'', ''<A_0>'')])] \<and>
   ''<<A_0>_99>'' \<notin> fst ` set (build_reverse_map [(''A'', [(''v'', ''<A_0>'')])]) \<and>
   deanonymize_text ''<<A_0>_99>'' [(''A'', [(''v'', ''<A_0>'')])] = ''<v_99>'' \<and>
   deanonymize_text ''<PERSON_99>'' [(''PERSON'', [(''Peter'', ''PERSON'')])] = ''<Peter_99>''"
  by (simp add: allocate_def Let_def REPLACING_FORMAT_def str_nat.simps
      digit_char_def build_reverse_map_def deanonymize_text_def replace_all_def py_replace_def
      replace_nonempty.simps)

text \<open>
  C7 (amended). An entry of the reverse map whose placeholder does not occur in the text as
  it stands when its replacement step runs (the input text after the steps of the earlier
  entries) leaves that text unchanged, and the pass returns what it would return without
  the entry.
\<close>

theorem missing_occurrence_tolerated:
  assumes "build_reverse_map em = before @ (placeholder, original_value) # after"
    and "\<not> sublist placeholder (replace_all before input_text)"
  shows "replace_all (before @ [(placeholder, original_value)]) input_text =
           replace_all before input_text \<and>
         deanonymize_text input_text em = replace_all (before @ after) input_text"
proof -
  from assms(2) have step: "py_replace placeholder original_value (replace_all before input_text) =
      replace_all before input_text" by (rule replace_missing)
  then have a: "replace_all (before @ [(placeholder, original_value)]) input_text =
      replace_all before input_text"
    by (simp add: replace_all_append replace_all_Cons replace_all_Nil)
  have "deanonymize_text input_text em =
      replace_all after (py_replace placeholder original_value (replace_all before input_text))"
    by (simp add: deanonymize_text_def assms(1) replace_all_append replace_all_Cons)
  with step a show ?thesis by (simp add: replace_all_append)
qed

theorem missing_occurrence_tolerated_witness:
  "\<not> sublist ''<PERSON_1>'' (replace_all [(''<PERSON_0>'', ''Peter'')] ''<PERSON_0> left'') \<and>
   deanonymize_text ''<PERSON_0> left''
     [(''PERSON'', [(''Peter'', ''<PERSON_0>''), (''Heidi'', ''<PERSON_1>'')])] = ''Peter left''"
proof -
  let ?em = "[(''PERSON'', [(''Peter'', ''<PERSON_0>''), (''Heidi'', ''<PERSON_1>'')])]"
  have rm: "build_reverse_map ?em = [(''<PERSON_0>'', ''Peter'')] @ (''<PERSON_1>'', ''Heidi'') # []"
    by (simp add: build_reverse_map_def)
  have before: "replace_all [(''<PERSON_0>'', ''Peter'')] ''<PERSON_0> left'' = ''Peter left''"
    by (simp add: replace_all_def py_replace_def replace_nonempty.simps)
  have no: "\<not> sublist ''<PERSON_1>'' (replace_all [(''<PERSON_0>'', ''Peter'')] ''<PERSON_0> left'')"
    unfolding before by (simp add: sublist_Cons_right)
  from missing_occurrence_tolerated [OF rm no] no before show ?thesis by simp
qed

text \<open>
  C7 as stated fails: \<open><B_0>\<close> does not occur in the input text \<open><A_0>\<close>, but the step
  of \<open><A_0>\<close> brings it in, and the step of \<open><B_0>\<close> then changes the text.
\<close>

theorem missing_occurrence_counterexample:
  "build_reverse_map (snd (allocate_seq [] [(''A'', ''<B_0>''), (''B'', ''x'')])) =
     [(''<A_0>'', ''<B_0>''), (''<B_0>'', ''x'')] \<and>
   \<not> sublist ''<B_0>'' ''<A_0>'' \<and>
   replace_all [(''<A_0>'', ''<B_0>'')] ''<A_0>'' = ''<B_0>'' \<and>
   replace_all [(''<A_0>'', ''<B_0>''), (''<B_0>'', ''x'')] ''<A_0>'' = ''x''"
  by (simp add: allocate_seq.simps(2) allocate_def Let_def REPLACING_FORMAT_def str_nat.simps
      digit_char_def build_reverse_map_def deanonymize_text_def replace_all_def py_replace_def
      replace_nonempty.simps sublist_Cons_right)

section \<open>Round trip\<close>

lemma slice_join: "i \<le> j \<Longrightarrow> slice s i j @ drop j s = drop i s"
proof -
  assume le: "i \<le> j"
  have "slice s i j @ drop (j - i) (drop i s) = drop i s"
    unfolding slice_def by (rule append_take_drop_id)
  moreover from le have "drop (j - i) (drop i s) = drop j s" by simp
  ultimately show ?thesis by (simp only:)
qed

lemma allocate_lookup: "lookup2 (snd (allocate em et v)) et v = Some (fst (allocate em et v))"
proof (cases "map_of em et")
  case None
  then show ?thesis by (simp add: allocate_new_type lookup2_def map_add_def)
next
  case (Some inner)
  then show ?thesis
    by (cases "map_of inner v")
      (simp_all add: allocate_new_value allocate_known lookup2_def update_conv' map_add_def)
qed

lemma allocate_keeps:
  "lookup2 em et v = Some ph \<Longrightarrow> lookup2 (snd (allocate em et' v')) et v = Some ph"
proof (cases "map_of em et'")
  case None
  assume "lookup2 em et v = Some ph"
  with None show ?thesis
    by (auto simp: allocate_new_type lookup2_def map_add_def split: option.splits)
next
  case (Some inner)
  assume "lookup2 em et v = Some ph"
  with Some show ?thesis
    by (cases "map_of inner v'")
      (auto simp: allocate_new_value allocate_known lookup2_def update_conv' map_add_def
        split: option.splits if_splits)
qed

lemma allocate_seq_keeps:
  "lookup2 em et v = Some ph \<Longrightarrow> lookup2 (snd (allocate_seq em reqs)) et v = Some ph"
proof (induction reqs arbitrary: em)
  case Nil
  then show ?case by simp
next
  case (Cons r reqs)
  obtain et' v' where r: "r = (et', v')" by (cases r)
  from Cons.prems have "lookup2 (snd (allocate em et' v')) et v = Some ph"
    by (rule allocate_keeps)
  from Cons.IH [OF this] show ?case by (simp add: r allocate_seq_Cons_snd)
qed

lemma allocate_seq_returned:
  "((et, v), ph) \<in> set (zip reqs (fst (allocate_seq em reqs))) \<Longrightarrow>
   lookup2 (snd (allocate_seq em reqs)) et v = Some ph"
proof (induction reqs arbitrary: em)
  case Nil
  then show ?case by simp
next
  case (Cons r reqs)
  obtain et' v' where r: "r = (et', v')" by (cases r)
  let ?em' = "snd (allocate em et' v')"
  from Cons.prems consider "(et, v) = (et', v')" "ph = fst (allocate em et' v')"
    | "((et, v), ph) \<in> set (zip reqs (fst (allocate_seq ?em' reqs)))"
    by (auto simp: r allocate_seq_Cons_fst)
  then show ?case
  proof cases
    case 1
    then have "lookup2 ?em' et v = Some ph" by (simp add: allocate_lookup)
    then show ?thesis by (simp add: r allocate_seq_Cons_snd allocate_seq_keeps)
  next
    case 2
    from Cons.IH [OF this] show ?thesis by (simp add: r allocate_seq_Cons_snd)
  qed
qed

lemma lookup2_flat_reverse:
  assumes "distinct (placeholders_of em)" "lookup2 em et v = Some ph"
  shows "map_of (flat_reverse em) ph = Some v"
proof -
  from lookup2_entry [OF assms(2)] obtain inner
    where "map_of em et = Some inner" "(v, ph) \<in> set inner" by blast
  then have "(ph, v) \<in> set (flat_reverse em)"
    by (meson flat_reverse_entry map_of_SomeD)
  moreover from assms(1) have "distinct (map fst (flat_reverse em))"
    by (simp add: fst_flat_reverse)
  ultimately show ?thesis by simp
qed

lemma allocated_keys_wf:
  assumes "list_all (\<lambda>r. bracket_free (fst r)) reqs"
  shows "list_all wf_token (map fst (build_reverse_map (snd (allocate_seq [] reqs))))"
proof -
  let ?S = "snd (allocate_seq [] reqs)"
  have ok: "store_ok ?S" by (rule allocate_seq_store_ok) (rule store_ok_empty)
  have "wf_token ph" if "ph \<in> set (placeholders_of ?S)" for ph
  proof -
    from ok have "list_all (\<lambda>(et, inner). inner_ok et inner) ?S" by (simp add: store_ok_def)
    from placeholders_of_origin [OF this that] obtain et i
      where e: "et \<in> fst ` set ?S" "ph = REPLACING_FORMAT et i" by blast
    from e(1) have "et \<in> fst ` set reqs" by (simp add: types_allocate_seq)
    with assms have "bracket_free et" by (auto simp: list_all_iff)
    with e(2) show ?thesis by (simp add: wf_token_format)
  qed
  then show ?thesis
    using keys_build_reverse_map [of ?S] by (auto simp: list_all_iff)
qed

text \<open>An occurrence of a token that begins in plain text ends before the next token.\<close>

lemma occurrence_stays_plain:
  "wf_token p \<Longrightarrow> list_all token_ok ps \<Longrightarrow> s \<noteq> [] \<Longrightarrow> prefix p (s @ render ps) \<Longrightarrow>
   prefix p (s @ render (map (resolve_piece rm0) ps))"
proof (induction ps arbitrary: s)
  case Nil
  then show ?case by (simp add: render_def)
next
  case (Cons x ps)
  show ?case
  proof (cases x)
    case (Plain u)
    from Cons.prems have "prefix p ((s @ u) @ render ps)" by (simp add: Plain render_Cons)
    moreover from Cons.prems have "s @ u \<noteq> []" "list_all token_ok ps" by simp_all
    ultimately have "prefix p ((s @ u) @ render (map (resolve_piece rm0) ps))"
      using Cons.IH Cons.prems(1) by blast
    then show ?thesis by (simp add: Plain render_Cons)
  next
    case (Token t)
    with Cons.prems have "wf_token t" "prefix p (s @ t @ render ps)"
      by (simp_all add: render_Cons)
    with Cons.prems(1,3) have "prefix p s" using token_prefix_inside by blast
    then show ?thesis by (metis prefix_prefix)
  qed
qed

lemma replace_through_plain:
  "wf_token p \<Longrightarrow> list_all token_ok ps \<Longrightarrow>
   \<not> sublist p (s @ render (map (resolve_piece rm0) ps)) \<Longrightarrow>
   replace_nonempty p v (s @ render ps) = s @ replace_nonempty p v (render ps)"
proof (induction s)
  case Nil
  then show ?case by simp
next
  case (Cons c s)
  have "\<not> prefix p ((c # s) @ render ps)"
  proof
    assume "prefix p ((c # s) @ render ps)"
    with Cons.prems(1,2) have "prefix p ((c # s) @ render (map (resolve_piece rm0) ps))"
      using occurrence_stays_plain [of p ps "c # s" rm0] by simp
    with Cons.prems(3) show False by blast
  qed
  moreover from Cons.prems(3) have "\<not> sublist p (s @ render (map (resolve_piece rm0) ps))"
    by (simp add: sublist_Cons_right)
  ultimately show ?case
    using Cons.IH Cons.prems(1,2) by (simp add: replace_nonempty.simps(2))
qed

lemma replace_in_pieces:
  "wf_token p \<Longrightarrow> list_all token_ok ps \<Longrightarrow>
   \<not> sublist p (render (map (resolve_piece rm0) ps)) \<Longrightarrow>
   replace_nonempty p v (render ps) = render (map (resolve_piece [(p, v)]) ps)"
proof (induction ps)
  case Nil
  then show ?case by (simp add: render_def replace_nonempty.simps(1))
next
  case (Cons x ps)
  have tail: "\<not> sublist p (render (map (resolve_piece rm0) ps))"
  proof
    assume "sublist p (render (map (resolve_piece rm0) ps))"
    then have "sublist p (render_piece (resolve_piece rm0 x) @ render (map (resolve_piece rm0) ps))"
      by (metis sublist_append_leftI sublist_order.order_trans)
    with Cons.prems(3) show False by (simp add: render_Cons)
  qed
  from Cons.prems have IH: "replace_nonempty p v (render ps) = render (map (resolve_piece [(p, v)]) ps)"
    using Cons.IH tail by simp
  show ?case
  proof (cases x)
    case (Plain s)
    from Cons.prems have "\<not> sublist p (s @ render (map (resolve_piece rm0) ps))"
      by (simp add: Plain render_Cons)
    with Cons.prems have "replace_nonempty p v (s @ render ps) = s @ replace_nonempty p v (render ps)"
      using replace_through_plain [of p ps s rm0 v] by simp
    then show ?thesis by (simp add: Plain render_Cons IH)
  next
    case (Token t)
    with Cons.prems have wt: "wf_token t" by simp
    show ?thesis
    proof (cases "t = p")
      case True
      from Cons.prems(1) have "p \<noteq> []" by (auto simp: wf_token_def)
      from replace_own [OF this] show ?thesis by (simp add: Token True render_Cons IH)
    next
      case False
      from replace_skip_token [OF Cons.prems(1) wt False] show ?thesis
        using False by (simp add: Token render_Cons IH)
    qed
  qed
qed

lemma resolve_empty: "resolve_piece [] x = x"
  by (cases x) simp_all

lemma resolve_after_step:
  "map_of rm0 p = Some v \<Longrightarrow> resolve_piece rm0 (resolve_piece [(p, v)] x) = resolve_piece rm0 x"
  by (cases x) auto

lemma resolve_step:
  "resolve_piece rm (resolve_piece [(p, v)] x) = resolve_piece ((p, v) # rm) x"
  by (cases x) auto

lemma token_ok_step: "token_ok x \<Longrightarrow> token_ok (resolve_piece [(p, v)] x)"
  by (cases x) auto

lemma replace_all_pieces:
  "list_all wf_token (map fst rm) \<Longrightarrow> list_all token_ok ps \<Longrightarrow>
   list_all (\<lambda>(p, v). map_of rm0 p = Some v) rm \<Longrightarrow>
   list_all (\<lambda>p. \<not> sublist p (render (map (resolve_piece rm0) ps))) (map fst rm) \<Longrightarrow>
   replace_all rm (render ps) = render (map (resolve_piece rm) ps)"
proof (induction rm arbitrary: ps)
  case Nil
  have "map (resolve_piece []) ps = ps" by (rule map_idI) (rule resolve_empty)
  then show ?case by (simp add: replace_all_Nil)
next
  case (Cons e rm)
  obtain p v where e: "e = (p, v)" by (cases e)
  let ?ps' = "map (resolve_piece [(p, v)]) ps"
  from Cons.prems have wf: "wf_token p" and keys: "list_all wf_token (map fst rm)"
    and known: "map_of rm0 p = Some v" and rest: "list_all (\<lambda>(p, v). map_of rm0 p = Some v) rm"
    and no: "\<not> sublist p (render (map (resolve_piece rm0) ps))"
    and nos: "list_all (\<lambda>p. \<not> sublist p (render (map (resolve_piece rm0) ps))) (map fst rm)"
    by (simp_all add: e)
  from replace_in_pieces [OF wf Cons.prems(2) no]
  have step: "py_replace p v (render ps) = render ?ps'"
    by (simp add: py_replace_token [OF wf])
  have same: "map (resolve_piece rm0) ?ps' = map (resolve_piece rm0) ps"
    using known by (simp add: resolve_after_step)
  from Cons.prems(2) have ok': "list_all token_ok ?ps'"
    by (simp add: list_all_iff token_ok_step)
  from nos have nos': "list_all (\<lambda>p. \<not> sublist p (render (map (resolve_piece rm0) ?ps'))) (map fst rm)"
    by (simp only: same)
  from Cons.IH [OF keys ok' rest nos']
  have "replace_all rm (render ?ps') = render (map (resolve_piece rm) ?ps')" .
  moreover have "map (resolve_piece rm) ?ps' = map (resolve_piece ((p, v) # rm)) ps"
    by (rule nth_equalityI) (simp_all add: resolve_step)
  ultimately show ?case by (simp only: e replace_all_Cons step)
qed

lemma render_pieces_of: "render (pieces_of raw pos pairs) = render_spans raw pos pairs"
  by (induction raw pos pairs rule: pieces_of.induct) (simp_all add: render_def)

lemma restored_pieces:
  "valid_detections pos n (map fst pairs) \<Longrightarrow>
   list_all (\<lambda>(d, ph). map_of rm ph = Some (slice raw (det_start d) (det_end d))) pairs \<Longrightarrow>
   render (map (resolve_piece rm) (pieces_of raw pos pairs)) = drop pos raw"
proof (induction raw pos pairs rule: pieces_of.induct)
  case (1 raw pos)
  then show ?case by (simp add: render_def)
next
  case (2 raw pos d ph rest)
  from "2.prems" have ord: "pos \<le> det_start d" "det_start d \<le> det_end d"
    and valid: "valid_detections (det_end d) n (map fst rest)"
    and known: "map_of rm ph = Some (slice raw (det_start d) (det_end d))"
    and others: "list_all (\<lambda>(d, ph). map_of rm ph = Some (slice raw (det_start d) (det_end d))) rest"
    by simp_all
  from "2.IH" [OF valid others]
  have "render (map (resolve_piece rm) (pieces_of raw pos ((d, ph) # rest))) =
      slice raw pos (det_start d) @ slice raw (det_start d) (det_end d) @ drop (det_end d) raw"
    by (simp add: render_Cons known)
  also have "\<dots> = drop pos raw"
    using slice_join [OF ord(2), of raw] slice_join [OF ord(1), of raw] by simp
  finally show ?case .
qed

lemma insort_key_fst:
  "map fst (insort_key (\<lambda>(d, ph). f d) x xs) = insort_key f (fst x) (map fst xs)"
  by (induction xs) (auto split: prod.splits)

lemma sort_key_fst:
  "map fst (sort_key (\<lambda>(d, ph). f d) xs) = sort_key f (map fst xs)"
  by (induction xs) (simp_all add: insort_key_fst)

lemma pieces_token_ok:
  "list_all (\<lambda>(d, ph). wf_token ph) pairs \<Longrightarrow> list_all token_ok (pieces_of raw pos pairs)"
  by (induction raw pos pairs rule: pieces_of.induct) simp_all

lemma zip_requests:
  "(d, ph) \<in> set (zip dets phs) \<Longrightarrow>
   ((det_entity_type d, slice raw (det_start d) (det_end d)), ph) \<in> set (zip (requests_of raw dets) phs)"
  by (force simp: requests_of_def zip_map1)

text \<open>
  C1 (amended). For every raw text and every detection sequence, handed over in any order,
  whose spans lie in the text without overlap and whose entity types contain neither \<open><\<close>
  nor \<open>>\<close>: if none of the placeholders allocated in the run occurs in the raw text, the
  reverse pass applied to the anonymized text and the store of the forward pass returns the
  raw text, so that every substituted span holds its original value again.
\<close>

theorem round_trip:
  assumes "valid_detections 0 (length raw_text) (sort_key det_start detections)"
    and "list_all (\<lambda>d. bracket_free (det_entity_type d)) detections"
    and "list_all (\<lambda>placeholder. \<not> sublist placeholder raw_text)
           (placeholders_of (snd (anonymize raw_text detections)))"
  shows "deanonymize_text (fst (anonymize raw_text detections))
           (snd (anonymize raw_text detections)) = raw_text"
proof -
  let ?reqs = "requests_of raw_text detections"
  let ?phs = "fst (allocate_seq [] ?reqs)"
  let ?S = "snd (allocate_seq [] ?reqs)"
  let ?rm = "build_reverse_map ?S"
  let ?pairs = "sort_key (\<lambda>(d, placeholder). det_start d) (zip detections ?phs)"
  let ?ps = "pieces_of raw_text 0 ?pairs"
  have an: "anonymize raw_text detections = (render_spans raw_text 0 ?pairs, ?S)"
    by (simp add: anonymize_def split: prod.splits)
  have ok: "store_ok ?S" by (rule allocate_seq_store_ok) (rule store_ok_empty)
  then have dist: "distinct (placeholders_of ?S)" by (rule placeholders_distinct)
  then have flat: "?rm = flat_reverse ?S" by (rule build_reverse_map_flat)
  from assms(2) have "list_all (\<lambda>r. bracket_free (fst r)) ?reqs"
    by (simp add: requests_of_def list_all_iff)
  then have keys: "list_all wf_token (map fst ?rm)" by (rule allocated_keys_wf)
  have known: "map_of ?rm ph = Some (slice raw_text (det_start d) (det_end d))"
    if "(d, ph) \<in> set ?pairs" for d ph
  proof -
    from that have "(d, ph) \<in> set (zip detections ?phs)" by simp
    then have "((det_entity_type d, slice raw_text (det_start d) (det_end d)), ph)
        \<in> set (zip ?reqs ?phs)" by (rule zip_requests)
    then have "lookup2 ?S (det_entity_type d) (slice raw_text (det_start d) (det_end d)) = Some ph"
      by (rule allocate_seq_returned)
    with dist show ?thesis unfolding flat by (rule lookup2_flat_reverse)
  qed
  then have known_all:
    "list_all (\<lambda>(d, ph). map_of ?rm ph = Some (slice raw_text (det_start d) (det_end d))) ?pairs"
    by (auto simp: list_all_iff)
  have "wf_token ph" if "(d, ph) \<in> set ?pairs" for d ph
  proof -
    from known [OF that] have "ph \<in> fst ` set ?rm" by (meson domI domIff map_of_eq_None_iff)
    with keys show ?thesis by (auto simp: list_all_iff)
  qed
  then have "list_all (\<lambda>(d, ph). wf_token ph) ?pairs" by (auto simp: list_all_iff)
  then have toks: "list_all token_ok ?ps" by (rule pieces_token_ok)
  have self: "list_all (\<lambda>(p, v). map_of ?rm p = Some v) ?rm"
    using distinct_build_reverse_map [of ?S] by (auto simp: list_all_iff)
  have "length ?phs = length detections"
    by (simp add: length_allocate_seq requests_of_def)
  then have "map fst ?pairs = sort_key det_start detections"
    by (simp add: sort_key_fst)
  with assms(1) have "valid_detections 0 (length raw_text) (map fst ?pairs)" by simp
  from restored_pieces [OF this known_all]
  have restored: "render (map (resolve_piece ?rm) ?ps) = raw_text" by simp
  from assms(3) have "list_all (\<lambda>p. \<not> sublist p raw_text) (map fst ?rm)"
    using keys_build_reverse_map [of ?S] by (auto simp: an list_all_iff)
  then have no: "list_all (\<lambda>p. \<not> sublist p (render (map (resolve_piece ?rm) ?ps))) (map fst ?rm)"
    by (simp only: restored)
  from replace_all_pieces [OF keys toks self no]
  have "replace_all ?rm (render_spans raw_text 0 ?pairs) = raw_text"
    by (simp only: restored render_pieces_of)
  then show ?thesis by (simp add: an deanonymize_text_def)
qed

theorem round_trip_witness:
  "anonymize ''a<b Peter lives in London.''
     [\<lparr>det_entity_type = ''LOCATION'', det_start = 19, det_end = 25\<rparr>,
      \<lparr>det_entity_type = ''PERSON'', det_start = 4, det_end = 9\<rparr>] =
     (''a<b <PERSON_0> lives in <LOCATION_0>.'',
      [(''LOCATION'', [(''London'', ''<LOCATION_0>'')]), (''PERSON'', [(''Peter'', ''<PERSON_0>'')])]) \<and>
   deanonymize_text ''a<b <PERSON_0> lives in <LOCATION_0>.''
      [(''LOCATION'', [(''London'', ''<LOCATION_0>'')]), (''PERSON'', [(''Peter'', ''<PERSON_0>'')])] =
     ''a<b Peter lives in London.''"
proof -
  let ?raw = "''a<b Peter lives in London.''"
  let ?dets = "[\<lparr>det_entity_type = ''LOCATION'', det_start = 19, det_end = 25\<rparr>,
      \<lparr>det_entity_type = ''PERSON'', det_start = 4, det_end = 9\<rparr>]"
  have a: "anonymize ?raw ?dets =
     (''a<b <PERSON_0> lives in <LOCATION_0>.'',
      [(''LOCATION'', [(''London'', ''<LOCATION_0>'')]), (''PERSON'', [(''Peter'', ''<PERSON_0>'')])])"
    by (simp add: anonymize_def requests_of_def slice_def allocate_seq.simps(2) allocate_def Let_def
        REPLACING_FORMAT_def str_nat.simps digit_char_def)
  have h1: "valid_detections 0 (length ?raw) (sort_key det_start ?dets)" by simp
  have h2: "list_all (\<lambda>d. bracket_free (det_entity_type d)) ?dets" by (simp add: bracket_free_def)
  have h3: "list_all (\<lambda>placeholder. \<not> sublist placeholder ?raw)
      (placeholders_of (snd (anonymize ?raw ?dets)))"
    unfolding a by (simp add: placeholders_of_def sublist_Cons_right)
  from round_trip [OF h1 h2 h3] a show ?thesis by simp
qed

text \<open>
  C1 as stated fails, whether the spans are allocated first to last or last to first: when
  each of two detected values is the placeholder of the other, the value restored by the
  first replacement step is replaced again by the second.
\<close>

theorem round_trip_counterexample:
  "valid_detections 0 (length ''<B_0> <A_0>'')
     [\<lparr>det_entity_type = ''A'', det_start = 0, det_end = 5\<rparr>,
      \<lparr>det_entity_type = ''B'', det_start = 6, det_end = 11\<rparr>] \<and>
   anonymize ''<B_0> <A_0>''
     [\<lparr>det_entity_type = ''A'', det_start = 0, det_end = 5\<rparr>,
      \<lparr>det_entity_type = ''B'', det_start = 6, det_end = 11\<rparr>] =
     (''<A_0> <B_0>'', [(''A'', [(''<B_0>'', ''<A_0>'')]), (''B'', [(''<A_0>'', ''<B_0>'')])]) \<and>
   deanonymize_text ''<A_0> <B_0>''
     [(''A'', [(''<B_0>'', ''<A_0>'')]), (''B'', [(''<A_0>'', ''<B_0>'')])] = ''<A_0> <A_0>'' \<and>
   anonymize ''<B_0> <A_0>''
     [\<lparr>det_entity_type = ''B'', det_start = 6, det_end = 11\<rparr>,
      \<lparr>det_entity_type = ''A'', det_start = 0, det_end = 5\<rparr>] =
     (''<A_0> <B_0>'', [(''B'', [(''<A_0>'', ''<B_0>'')]), (''A'', [(''<B_0>'', ''<A_0>'')])]) \<and>
   deanonymize_text ''<A_0> <B_0>''
     [(''B'', [(''<A_0>'', ''<B_0>'')]), (''A'', [(''<B_0>'', ''<A_0>'')])] = ''<B_0> <B_0>''"
  by (simp add: anonymize_def requests_of_def slice_def allocate_seq.simps(2) allocate_def Let_def
      REPLACING_FORMAT_def str_nat.simps digit_char_def deanonymize_text_def build_reverse_map_def
      replace_all_def py_replace_def replace_nonempty.simps)

text \<open>
  The condition on the entity types cannot be dropped: with a type that contains \<open><\<close>, a
  placeholder can arise across the border between a gap and the placeholder after it, in a
  raw text that holds no placeholder at all.
\<close>

lemma round_trip_needs_bracket_free_types:
  "anonymize ''a <Xv''
     [\<lparr>det_entity_type = ''X<Y'', det_start = 0, det_end = 1\<rparr>,
      \<lparr>det_entity_type = ''Y'', det_start = 4, det_end = 5\<rparr>] =
     (''<X<Y_0> <X<Y_0>'', [(''X<Y'', [(''a'', ''<X<Y_0>'')]), (''Y'', [(''v'', ''<Y_0>'')])]) \<and>
   \<not> sublist ''<X<Y_0>'' ''a <Xv'' \<and> \<not> sublist ''<Y_0>'' ''a <Xv'' \<and>
   deanonymize_text ''<X<Y_0> <X<Y_0>''
     [(''X<Y'', [(''a'', ''<X<Y_0>'')]), (''Y'', [(''v'', ''<Y_0>'')])] = ''a a''"
  by (simp add: anonymize_def requests_of_def slice_def allocate_seq.simps(2) allocate_def Let_def
      REPLACING_FORMAT_def str_nat.simps digit_char_def deanonymize_text_def build_reverse_map_def
      replace_all_def py_replace_def replace_nonempty.simps sublist_Cons_right)

end
